theory Spec2Isabelle
  imports Main "HOL-Library.Word" "HOL-Library.AList" "HOL-Library.Multiset"
begin

section \<open>The Battleship server (server/server.js) as HOL functions\<close>

text \<open>
  The server is single threaded: every inbound message is handled to completion. The
  model is explicit state passing over a record of the in-memory state. The draws of the
  environment (\<open>Date.now()\<close>, \<open>Math.random()\<close>, \<open>randomUUID()\<close>) are inputs of a
  step. JavaScript numbers that are known to be integers are \<open>int\<close>; array indices
  are \<open>int\<close> too, since the code computes \<open>cc - 1\<close> and \<open>rr - 1\<close> and tests them
  with \<open>inb\<close>.
\<close>

subsection \<open>Constants and helpers\<close>

abbreviation (input) SIZE :: int where "SIZE \<equiv> 10"
abbreviation (input) EMPTY :: int where "EMPTY \<equiv> 0"

definition clamp :: "int \<Rightarrow> int \<Rightarrow> int \<Rightarrow> int" where
  "clamp n lo hi = max lo (min hi n)"

type_synonym 'a grid = "'a list list"
type_synonym coord = "int \<times> int"

text \<open>
  \<open>g[r][c]\<close> and \<open>g[r][c] = v\<close> on a two-dimensional array. Every grid the server
  holds is built by \<open>emptyBoard\<close> (or the \<open>visited\<close> array of the sanitizer) and is
  10 by 10; the sanitizer checks the shape of a submitted board before it reads it. So
  no index is ever out of range, and the model reads and writes with \<open>!\<close> and list
  update. The theorems below state the shape as a hypothesis wherever a cell of a stored
  grid is read (\<open>shape10\<close>, \<open>playerOk\<close>), and \<open>reachable_players_ok\<close> proves it of
  every state the server can reach.
\<close>

definition cell :: "'a grid \<Rightarrow> int \<Rightarrow> int \<Rightarrow> 'a" where
  "cell g r c = g ! nat r ! nat c"

definition setCell :: "'a grid \<Rightarrow> int \<Rightarrow> int \<Rightarrow> 'a \<Rightarrow> 'a grid" where
  "setCell g r c v = g[nat r := (g ! nat r)[nat c := v]]"

definition shape10 :: "'a grid \<Rightarrow> bool" where
  "shape10 g = (length g = nat SIZE \<and> (\<forall>row \<in> set g. length row = nat SIZE))"

definition emptyBoard :: "int grid" where
  "emptyBoard = replicate (nat SIZE) (replicate (nat SIZE) EMPTY)"

definition inb :: "int \<Rightarrow> int \<Rightarrow> bool" where
  "inb rr cc = (rr \<ge> 0 \<and> rr < SIZE \<and> cc \<ge> 0 \<and> cc < SIZE)"

text \<open>The index pairs of \<open>for (r = 0; r < SIZE; r++) for (c = 0; c < SIZE; c++)\<close>, in
  the order the two loops visit them.\<close>

definition coords :: "coord list" where
  "coords = concat (map (\<lambda>r. map (\<lambda>c. (r, c)) [0..SIZE - 1]) [0..SIZE - 1])"

subsection \<open>Per-socket rate limit\<close>

abbreviation (input) RATE_LIMIT_WINDOW_MS :: int where "RATE_LIMIT_WINDOW_MS \<equiv> 1000"
abbreviation (input) RATE_LIMIT_MAX :: int where "RATE_LIMIT_MAX \<equiv> 15"

record limiter =
  windowStart :: int
  count :: int

text \<open>\<open>rateLimiter()\<close> creates the closure at time \<open>t0\<close>; \<open>ok\<close> is one call of the
  closure at time \<open>t\<close>: the verdict and the closure's new variables.\<close>

definition rateLimiter :: "int \<Rightarrow> limiter" where
  "rateLimiter t0 = \<lparr>windowStart = t0, count = 0\<rparr>"

definition ok :: "int \<Rightarrow> limiter \<Rightarrow> bool \<times> limiter" where
  "ok t L =
     (let L1 = (if t - windowStart L > RATE_LIMIT_WINDOW_MS
                then \<lparr>windowStart = t, count = 0\<rparr> else L);
          L2 = L1\<lparr>count := count L1 + 1\<rparr>
      in (count L2 \<le> RATE_LIMIT_MAX, L2))"

text \<open>A connection's inbound messages, by arrival time: each gets the verdict of \<open>ok\<close>.\<close>

fun verdicts :: "limiter \<Rightarrow> int list \<Rightarrow> (int \<times> bool) list" where
  "verdicts L [] = []"
| "verdicts L (t # ts) = (t, fst (ok t L)) # verdicts (snd (ok t L)) ts"

text \<open>The number of accepted messages that arrived in the interval from \<open>a\<close> to
  \<open>a + 1000\<close>, both ends included.\<close>

definition acceptedIn :: "int \<Rightarrow> (int \<times> bool) list \<Rightarrow> nat" where
  "acceptedIn a vs =
     length (filter (\<lambda>(t, acc). acc \<and> a \<le> t \<and> t \<le> a + RATE_LIMIT_WINDOW_MS) vs)"

subsection \<open>Masking the opponent's board\<close>

text \<open>\<open>None\<close> is JavaScript's \<open>null\<close>/\<open>undefined\<close>: \<open>roomStateFor\<close> passes
  \<open>me?.marks\<close>, which is undefined when the connection has no player in the room.\<close>

definition maskCell :: "int grid option \<Rightarrow> int grid \<Rightarrow> coord \<Rightarrow> int grid" where
  "maskCell myMarks out rc =
     (case rc of (r, c) \<Rightarrow>
        let seenHit = (case myMarks of None \<Rightarrow> False | Some m \<Rightarrow> cell m r c = 2)
        in if \<not> seenHit then setCell out r c EMPTY else out)"

definition maskOpponentBoard :: "int grid option \<Rightarrow> int grid option \<Rightarrow> int grid option" where
  "maskOpponentBoard board myMarks =
     (case board of None \<Rightarrow> None
      | Some b \<Rightarrow> Some (foldl (maskCell myMarks) b coords))"

subsection \<open>The fleet sanitizer\<close>

record ship =
  ship_id :: int
  ship_length :: nat
  cells :: "coord list"
  hits :: "coord list"

datatype orient = H | V | S

text \<open>The two \<open>while\<close> loops that walk a run to the right and downwards.\<close>

function walkH :: "int grid \<Rightarrow> int \<Rightarrow> int \<Rightarrow> int \<Rightarrow> bool grid \<Rightarrow> coord list
    \<Rightarrow> bool grid \<times> coord list" where
  "walkH board i r cc visited cs =
     (if inb r cc \<and> cell board r cc = i \<and> \<not> cell visited r cc
      then walkH board i r (cc + 1) (setCell visited r cc True) (cs @ [(r, cc)])
      else (visited, cs))"
  by pat_completeness auto
termination
  by (relation "measure (\<lambda>(board, i, r, cc, visited, cs). nat (SIZE - cc))")
     (auto simp: inb_def)
declare walkH.simps [simp del]

function walkV :: "int grid \<Rightarrow> int \<Rightarrow> int \<Rightarrow> int \<Rightarrow> bool grid \<Rightarrow> coord list
    \<Rightarrow> bool grid \<times> coord list" where
  "walkV board i rr c visited cs =
     (if inb rr c \<and> cell board rr c = i \<and> \<not> cell visited rr c
      then walkV board i (rr + 1) c (setCell visited rr c True) (cs @ [(rr, c)])
      else (visited, cs))"
  by pat_completeness auto
termination
  by (relation "measure (\<lambda>(board, i, rr, c, visited, cs). nat (SIZE - rr))")
     (auto simp: inb_def)
declare walkV.simps [simp del]

definition decideOrient :: "int grid \<Rightarrow> int \<Rightarrow> int \<Rightarrow> int \<Rightarrow> orient" where
  "decideOrient board i r c =
     (if inb r (c + 1) \<and> cell board r (c + 1) = i then H
      else if inb (r + 1) c \<and> cell board (r + 1) c = i then V
      else S)"

definition collect :: "int grid \<Rightarrow> int \<Rightarrow> int \<Rightarrow> int \<Rightarrow> bool grid \<Rightarrow> bool grid \<times> coord list" where
  "collect board i r c visited =
     (case decideOrient board i r c of
        H \<Rightarrow> walkH board i r c visited []
      | V \<Rightarrow> walkV board i r c visited []
      | S \<Rightarrow> (setCell visited r c True, [(r, c)]))"

definition nbrs :: "coord \<Rightarrow> coord list" where
  "nbrs rc = (case rc of (rr, cc) \<Rightarrow> [(rr, cc - 1), (rr, cc + 1), (rr - 1, cc), (rr + 1, cc)])"

text \<open>The "No branches" loop returns \<open>{}\<close> exactly when some cell of the run has a
  neighbour inside the board that carries the run's identifier and is not in the run.\<close>

definition branches :: "int grid \<Rightarrow> int \<Rightarrow> coord list \<Rightarrow> bool" where
  "branches board i cs =
     (\<exists>rc \<in> set cs. \<exists>n \<in> set (nbrs rc).
        inb (fst n) (snd n) \<and> cell board (fst n) (snd n) = i \<and> \<not> (\<exists>x \<in> set cs. x = n))"

text \<open>One iteration of the inner scan loop; \<open>None\<close> is \<open>return {}\<close>.\<close>

definition scanCell :: "int grid \<Rightarrow> bool grid \<times> ship list \<Rightarrow> coord
    \<Rightarrow> (bool grid \<times> ship list) option" where
  "scanCell board st rc =
     (case st of (visited, ships) \<Rightarrow> (case rc of (r, c) \<Rightarrow>
        let i = cell board r c in
        if i = EMPTY \<or> cell visited r c then Some (visited, ships)
        else
          (case collect board i r c visited of (visited', cs) \<Rightarrow>
            if branches board i cs then None
            else Some (visited',
                   ships @ [\<lparr>ship_id = i, ship_length = length cs, cells = cs, hits = []\<rparr>]))))"

fun scanAll :: "int grid \<Rightarrow> bool grid \<times> ship list \<Rightarrow> coord list
    \<Rightarrow> (bool grid \<times> ship list) option" where
  "scanAll board st [] = Some st"
| "scanAll board st (rc # rest) =
     (case scanCell board st rc of None \<Rightarrow> None | Some st' \<Rightarrow> scanAll board st' rest)"

text \<open>The shape check. The type already says that \<open>board\<close> is an array of arrays of
  integers; what is left of the validation loop is the two lengths and \<open>v < 0\<close>.\<close>

definition validBoard :: "int grid \<Rightarrow> bool" where
  "validBoard board =
     (length board = nat SIZE \<and> (\<forall>row \<in> set board. length row = nat SIZE \<and> (\<forall>v \<in> set row. \<not> v < 0)))"

definition noVisited :: "bool grid" where
  "noVisited = replicate (nat SIZE) (replicate (nat SIZE) False)"

text \<open>The runs of a board that passed the shape check, in scan order, with the
  identifiers of the submission.\<close>

definition extractShips :: "int grid \<Rightarrow> ship list option" where
  "extractShips board = map_option snd (scanAll board (noVisited, []) coords)"

text \<open>\<open>ships.map(s => s.length).sort((a,b) => b-a).join(',')\<close> is compared with
  \<open>'5,4,3,3,2'\<close>: two lists of natural numbers have the same \<open>join\<close> iff they are equal.\<close>

definition wanted :: "nat list" where
  "wanted = rev (sort [5, 4, 3, 3, 2])"

definition got :: "ship list \<Rightarrow> nat list" where
  "got ships = rev (sort (map ship_length ships))"

text \<open>\<open>ships.sort((a,b) => a.id - b.id).forEach((s, i) => s.id = i + 1)\<close>; the sort of
  an array is stable.\<close>

definition renumber :: "ship list \<Rightarrow> ship list" where
  "renumber ships =
     map (\<lambda>(i, s). s\<lparr>ship_id := int i + 1\<rparr>) (enumerate 0 (sort_key ship_id ships))"

definition paintShip :: "int grid \<Rightarrow> ship \<Rightarrow> int grid" where
  "paintShip b s = foldl (\<lambda>b rc. setCell b (fst rc) (snd rc) (ship_id s)) b (cells s)"

definition normBoard :: "ship list \<Rightarrow> int grid" where
  "normBoard ships = foldl paintShip emptyBoard ships"

text \<open>\<open>sanitizeFleet(payload)\<close>. The argument is \<open>payload.board\<close>: \<open>None\<close> when the
  payload is missing or its \<open>board\<close> is not an array of arrays of integers. The result
  \<open>None\<close> is the empty object \<open>{}\<close>, \<open>Some (board, ships)\<close> the accepted pair.\<close>

definition sanitizeFleet :: "int grid option \<Rightarrow> (int grid \<times> ship list) option" where
  "sanitizeFleet payload =
     (case payload of None \<Rightarrow> None
      | Some board \<Rightarrow>
          if \<not> validBoard board then None
          else (case extractShips board of None \<Rightarrow> None
            | Some ships \<Rightarrow>
                if got ships \<noteq> wanted then None
                else Some (normBoard (renumber ships), renumber ships)))"


subsection \<open>What the claims about the sanitizer speak of\<close>

text \<open>
  The runs the scan extracts from a board, with the identifier each was read under, in
  scan order: the scan loop of \<open>sanitizeFleet\<close> with the branch check left out (the
  check changes neither \<open>visited\<close> nor a run, it only rejects).
\<close>

fun traceRuns :: "int grid \<Rightarrow> bool grid \<Rightarrow> coord list \<Rightarrow> (int \<times> coord list) list" where
  "traceRuns board visited [] = []"
| "traceRuns board visited (rc # rest) =
     (let i = cell board (fst rc) (snd rc) in
      if i = EMPTY \<or> cell visited (fst rc) (snd rc) then traceRuns board visited rest
      else (i, snd (collect board i (fst rc) (snd rc) visited))
             # traceRuns board (fst (collect board i (fst rc) (snd rc) visited)) rest)"

definition extractedRuns :: "int grid \<Rightarrow> (int \<times> coord list) list" where
  "extractedRuns board = traceRuns board noVisited coords"

definition runShip :: "int \<times> coord list \<Rightarrow> ship" where
  "runShip run = \<lparr>ship_id = fst run, ship_length = length (snd run), cells = snd run, hits = []\<rparr>"

text \<open>
  A placement, in the spec's words: a ship is a straight run of \<open>p_len\<close> cells that
  starts at \<open>(p_r, p_c)\<close> and goes right (\<open>p_horizontal\<close>) or down, under the
  identifier \<open>p_id\<close>.
\<close>

record placed =
  p_id :: int
  p_r :: int
  p_c :: int
  p_len :: nat
  p_horizontal :: bool

definition cellsOf :: "placed \<Rightarrow> coord list" where
  "cellsOf p =
     (if p_horizontal p then map (\<lambda>k. (p_r p, p_c p + int k)) [0..<p_len p]
      else map (\<lambda>k. (p_r p + int k, p_c p)) [0..<p_len p])"

text \<open>A valid placement: each ship inside the board under a positive identifier of its
  own, no two ships sharing a cell, and the lengths 5, 4, 3, 3, 2 (so five ships).\<close>

definition validFleet :: "placed list \<Rightarrow> bool" where
  "validFleet ps =
     (distinct (map p_id ps) \<and>
      (\<forall>p \<in> set ps. 0 < p_id p \<and> (\<forall>rc \<in> set (cellsOf p). inb (fst rc) (snd rc))) \<and>
      (\<forall>p \<in> set ps. \<forall>q \<in> set ps. p_id p \<noteq> p_id q \<longrightarrow> set (cellsOf p) \<inter> set (cellsOf q) = {}) \<and>
      sort (map p_len ps) = [2, 3, 3, 4, 5])"

definition idAt :: "placed list \<Rightarrow> coord \<Rightarrow> int" where
  "idAt ps rc = (case find (\<lambda>p. rc \<in> set (cellsOf p)) ps of None \<Rightarrow> EMPTY | Some p \<Rightarrow> p_id p)"

text \<open>A grid encodes a placement: 10 by 10, each cell holding the identifier of the ship
  that covers it, and 0 where there is none.\<close>

definition encodes :: "int grid \<Rightarrow> placed list \<Rightarrow> bool" where
  "encodes board ps =
     (shape10 board \<and> (\<forall>rc \<in> set coords. cell board (fst rc) (snd rc) = idAt ps rc))"

text \<open>The fleet the spec promises for a placement: the ships by ascending identifier of
  the submission, renumbered from 1.\<close>

definition expectedShips :: "placed list \<Rightarrow> ship list" where
  "expectedShips ps =
     map (\<lambda>(k, p). \<lparr>ship_id = int k + 1, ship_length = p_len p, cells = cellsOf p, hits = []\<rparr>)
       (enumerate 0 (sort_key p_id ps))"

text \<open>Auxiliary notions for the proofs about the scan: marking a list of cells in
  \<open>visited\<close>, the first cell of a placed ship, and the position of a cell in scan
  order.\<close>

definition markAll :: "bool grid \<Rightarrow> coord list \<Rightarrow> bool grid" where
  "markAll v cs = foldl (\<lambda>v rc. setCell v (fst rc) (snd rc) True) v cs"

definition headOf :: "placed \<Rightarrow> coord" where
  "headOf p = (p_r p, p_c p)"

definition rank :: "coord \<Rightarrow> int" where
  "rank rc = fst rc * SIZE + snd rc"

definition runOf :: "placed \<Rightarrow> int \<times> coord list" where
  "runOf p = (p_id p, cellsOf p)"

text \<open>The ships of a placement whose first cell is in \<open>todo\<close>, in the order of \<open>todo\<close>.\<close>

definition headsIn :: "placed list \<Rightarrow> coord list \<Rightarrow> placed list" where
  "headsIn ps todo = concat (map (\<lambda>rc. filter (\<lambda>p. headOf p = rc) ps) todo)"

subsection \<open>Rooms, players and connections\<close>

datatype phase = Placing | Battle | Gameover

record player =
  player_id :: string
  board :: "int grid"
  ships :: "ship list"
  marks :: "int grid"
  ready :: bool

text \<open>\<open>players\<close> is the object \<open>room.players\<close>: the entries in insertion order, which
  is the order of \<open>Object.keys\<close> for keys that are not canonical array indices (a UUID
  never is). A key is stored once; \<open>AList.update\<close> overwrites in place or appends.\<close>

record room =
  createdAt :: int
  phase :: phase
  turn :: "string option"
  winner :: "string option"
  players :: "(string \<times> player) list"

text \<open>The fields of a socket \<open>ws\<close> that the handlers read: \<open>ws.room\<close>,
  \<open>ws.playerId\<close> and the closure \<open>ws.okRate\<close>. (\<open>ws.id\<close> is never read;
  \<open>ws.isAlive\<close> belongs to the heartbeat.)\<close>

record conn =
  ws_room :: "string option"
  ws_playerId :: "string option"
  ws_okRate :: limiter

text \<open>The server: the map \<open>rooms\<close> and the set \<open>wss.clients\<close>, a socket being named
  by a number.\<close>

record server =
  rooms :: "string \<Rightarrow> room option"
  clients :: "(nat \<times> conn) list"

text \<open>What the environment draws while one event is handled: \<open>Date.now()\<close>,
  \<open>code6()\<close>, \<open>randomUUID()\<close>, and whether \<open>Math.floor(Math.random() * 2)\<close> is 1.\<close>

record env =
  now :: int
  code6 :: string
  randomUUID :: string
  randomIsOne :: bool

subsection \<open>Messages\<close>

text \<open>An inbound message after \<open>JSON.parse\<close>, by \<open>msg.type\<close>. \<open>JOIN_ROOM\<close> carries
  \<open>msg.code\<close> when it is a string (\<open>None\<close> when it is missing or falsy),
  \<open>PLACE_FLEET\<close> the board of \<open>msg.payload\<close> and \<open>!!msg.ready\<close>, \<open>FIRE\<close> the
  integers \<open>msg.r\<close> and \<open>msg.c\<close>. Two messages make the handler throw:
  \<open>JOIN_ROOM\<close> with a truthy code that is not a string (it has no \<open>trim\<close>), and the
  JSON text \<open>null\<close> (it has no \<open>type\<close>).\<close>

datatype msg =
    CREATE_ROOM
  | JOIN_ROOM "string option"
  | JOIN_ROOM_CODE_NOT_STRING
  | PLACE_FLEET "int grid option" bool
  | FIRE int int
  | REQUEST_STATE
  | UNKNOWN_TYPE
  | JSON_NULL

datatype err = NO_SUCH_ROOM | ROOM_FULL | BAD_FLEET

record ship_view =
  sv_id :: int
  sv_length :: nat
  sv_hits :: "coord list"

record player_view =
  pv_id :: string
  pv_board :: "int grid option"
  pv_marks :: "int grid"
  pv_ships :: "ship_view list"
  pv_ready :: bool

record room_state =
  rs_code :: "string option"
  rs_phase :: phase
  rs_turn :: "string option"
  rs_winner :: "string option"
  rs_me :: "player_view option"
  rs_opp :: "player_view option"

datatype out =
    ROOM_CREATED string
  | JOINED string string
  | ERROR err
  | ROOM_STATE room_state

text \<open>\<open>send(ws, obj)\<close>: the socket and the object sent.\<close>

type_synonym sent = "(nat \<times> out) list"

datatype crash = TypeError

subsection \<open>Helpers of the handlers\<close>

text \<open>A string is truthy iff it is not empty; \<open>null\<close> as a property key is the key
  \<open>"null"\<close>.\<close>

definition truthy :: "string option \<Rightarrow> bool" where
  "truthy s = (case s of None \<Rightarrow> False | Some x \<Rightarrow> x \<noteq> [])"

definition propKey :: "string option \<Rightarrow> string" where
  "propKey k = (case k of None \<Rightarrow> ''null'' | Some x \<Rightarrow> x)"

definition playerOf :: "room \<Rightarrow> string option \<Rightarrow> player option" where
  "playerOf rm k = map_of (players rm) (propKey k)"

definition otherPlayerId :: "room \<Rightarrow> string option \<Rightarrow> string option" where
  "otherPlayerId rm pid =
     (case find (\<lambda>i. Some i \<noteq> pid) (map fst (players rm)) of
        None \<Rightarrow> None
      | Some i \<Rightarrow> if i = [] then None else Some i)"

definition getRoom :: "conn \<Rightarrow> server \<Rightarrow> room option" where
  "getRoom ws srv =
     (if \<not> truthy (ws_room ws) then None
      else (case ws_room ws of None \<Rightarrow> None | Some code \<Rightarrow> rooms srv code))"

text \<open>\<open>~~x\<close> on an integer: the value modulo \<open>2^32\<close>, read as a signed 32-bit number.\<close>

definition toInt32 :: "int \<Rightarrow> int" where
  "toInt32 x = sint (word_of_int x :: 32 word)"

text \<open>\<open>String.prototype.trim\<close>, for the ASCII white space and line terminators.\<close>

definition isSpace :: "char \<Rightarrow> bool" where
  "isSpace ch = (ch \<in> set [CHR 0x09, CHR 0x0A, CHR 0x0B, CHR 0x0C, CHR 0x0D, CHR 0x20])"

definition trim :: "string \<Rightarrow> string" where
  "trim s = rev (dropWhile isSpace (rev (dropWhile isSpace s)))"

definition shipView :: "ship \<Rightarrow> ship_view" where
  "shipView s = \<lparr>sv_id = ship_id s, sv_length = ship_length s, sv_hits = hits s\<rparr>"

definition roomStateFor :: "conn \<Rightarrow> room \<Rightarrow> room_state" where
  "roomStateFor ws rm =
     (let meId = ws_playerId ws;
          oppId = otherPlayerId rm meId;
          me = (if truthy meId then playerOf rm meId else None);
          opp = (case oppId of None \<Rightarrow> None | Some i \<Rightarrow> map_of (players rm) i);
          safeOppBoard =
            (case opp of None \<Rightarrow> None
             | Some q \<Rightarrow> maskOpponentBoard (Some (board q)) (map_option marks me));
          code = (if truthy (ws_room ws) then ws_room ws else None)
      in \<lparr>rs_code = code, rs_phase = phase rm, rs_turn = turn rm, rs_winner = winner rm,
          rs_me = map_option (\<lambda>m. \<lparr>pv_id = propKey meId, pv_board = Some (board m),
                    pv_marks = marks m, pv_ships = map shipView (ships m),
                    pv_ready = ready m\<rparr>) me,
          rs_opp = map_option (\<lambda>q. \<lparr>pv_id = propKey oppId, pv_board = safeOppBoard,
                    pv_marks = marks q, pv_ships = map shipView (ships q),
                    pv_ready = ready q\<rparr>) opp\<rparr>)"

definition broadcastRoom :: "server \<Rightarrow> string \<Rightarrow> sent" where
  "broadcastRoom srv code =
     (case rooms srv code of None \<Rightarrow> []
      | Some rm \<Rightarrow>
          concat (map (\<lambda>(wid, ws). if ws_room ws \<noteq> Some code then []
                                    else [(wid, ROOM_STATE (roomStateFor ws rm))])
                   (clients srv)))"

subsection \<open>The cases of the message handler\<close>

definition newRoom :: "int \<Rightarrow> room" where
  "newRoom t = \<lparr>createdAt = t, phase = Placing, turn = None, winner = None, players = []\<rparr>"

definition createRoom :: "env \<Rightarrow> nat \<Rightarrow> server \<Rightarrow> server \<times> sent" where
  "createRoom e wid srv =
     (let code = code6 e
      in (srv\<lparr>rooms := (rooms srv)(code \<mapsto> newRoom (now e))\<rparr>, [(wid, ROOM_CREATED code)]))"

definition newPlayer :: "string \<Rightarrow> player" where
  "newPlayer playerId =
     \<lparr>player_id = playerId, board = emptyBoard, ships = [], marks = emptyBoard, ready = False\<rparr>"

definition joinRoom :: "env \<Rightarrow> nat \<Rightarrow> conn \<Rightarrow> server \<Rightarrow> string option \<Rightarrow> server \<times> sent" where
  "joinRoom e wid ws srv msgCode =
     (let code = trim (if truthy msgCode then propKey msgCode else [])
      in case rooms srv code of
           None \<Rightarrow> (srv, [(wid, ERROR NO_SUCH_ROOM)])
         | Some rm \<Rightarrow>
             if length (map fst (players rm)) \<ge> 2 then (srv, [(wid, ERROR ROOM_FULL)])
             else
               let playerId = randomUUID e;
                   rm' = rm\<lparr>players := AList.update playerId (newPlayer playerId) (players rm)\<rparr>;
                   ws' = ws\<lparr>ws_room := Some code, ws_playerId := Some playerId\<rparr>;
                   srv' = srv\<lparr>rooms := (rooms srv)(code \<mapsto> rm'),
                              clients := AList.update wid ws' (clients srv)\<rparr>
               in (srv', (wid, JOINED code playerId) # broadcastRoom srv' code))"

text \<open>\<open>PLACE_FLEET\<close> in two parts: storing the sanitized fleet, and the start of the
  battle once both players are ready.\<close>

definition storeFleet :: "room \<Rightarrow> string \<Rightarrow> player \<Rightarrow> int grid \<times> ship list \<Rightarrow> bool \<Rightarrow> room" where
  "storeFleet rm key p clean rdy =
     rm\<lparr>players := AList.update key (p\<lparr>board := fst clean, ships := snd clean, ready := rdy\<rparr>)
                       (players rm)\<rparr>"

definition bothReady :: "room \<Rightarrow> bool" where
  "bothReady rm =
     (let ids = map fst (players rm)
      in length ids = 2 \<and>
         (\<forall>i \<in> set ids. case map_of (players rm) i of None \<Rightarrow> False | Some q \<Rightarrow> ready q))"

definition startBattle :: "env \<Rightarrow> room \<Rightarrow> room" where
  "startBattle e rm =
     rm\<lparr>phase := Battle,
        turn := Some (map fst (players rm) ! (if randomIsOne e then 1 else 0))\<rparr>"

definition placeFleet :: "env \<Rightarrow> nat \<Rightarrow> conn \<Rightarrow> server \<Rightarrow> int grid option \<Rightarrow> bool
    \<Rightarrow> server \<times> sent" where
  "placeFleet e wid ws srv payload rdy =
     (case getRoom ws srv of None \<Rightarrow> (srv, [])
      | Some rm \<Rightarrow>
          if phase rm \<noteq> Placing then (srv, [])
          else (case playerOf rm (ws_playerId ws) of None \<Rightarrow> (srv, [])
            | Some p \<Rightarrow>
               (case sanitizeFleet payload of
                  None \<Rightarrow> (srv, [(wid, ERROR BAD_FLEET)])
                | Some clean \<Rightarrow>
                    let code = propKey (ws_room ws);
                        rm1 = storeFleet rm (propKey (ws_playerId ws)) p clean rdy;
                        srv1 = srv\<lparr>rooms := (rooms srv)(code \<mapsto> rm1)\<rparr>;
                        out1 = broadcastRoom srv1 code
                    in if bothReady rm1
                       then let srv2 = srv1\<lparr>rooms := (rooms srv1)(code \<mapsto> startBattle e rm1)\<rparr>
                            in (srv2, out1 @ broadcastRoom srv2 code)
                       else (srv1, out1))))"

text \<open>\<open>ship.hits.push(key)\<close> on the first ship with the identifier, unless the key is
  there. The key \<open>`${r},${c}`\<close> is the pair \<open>(r, c)\<close>.\<close>

fun hitShip :: "int \<Rightarrow> coord \<Rightarrow> ship list \<Rightarrow> ship list" where
  "hitShip i key [] = []"
| "hitShip i key (s # ss) =
     (if ship_id s = i
      then (if key \<in> set (hits s) then s else s\<lparr>hits := hits s @ [key]\<rparr>) # ss
      else s # hitShip i key ss)"

definition allSunk :: "ship list \<Rightarrow> bool" where
  "allSunk ss = (\<forall>s \<in> set ss. length (hits s) = ship_length s)"

text \<open>The \<open>FIRE\<close> case on the room, for the socket's \<open>playerId\<close>: \<open>Inr None\<close> is a
  \<open>break\<close> before anything is written, \<open>Inl TypeError\<close> the exception of a property
  read on \<open>undefined\<close> (\<open>opp.board\<close>, \<open>ship.hits\<close>).\<close>

definition fireRoom :: "room \<Rightarrow> string option \<Rightarrow> int \<Rightarrow> int \<Rightarrow> crash + room option" where
  "fireRoom rm pid r0 c0 =
     (if phase rm \<noteq> Battle then Inr None
      else if turn rm \<noteq> pid then Inr None
      else (case playerOf rm pid of None \<Rightarrow> Inr None
        | Some me \<Rightarrow>
           (case otherPlayerId rm pid of None \<Rightarrow> Inr None
            | Some oppId \<Rightarrow>
                let r = clamp (toInt32 r0) 0 (SIZE - 1);
                    c = clamp (toInt32 c0) 0 (SIZE - 1)
                in if cell (marks me) r c = 2 \<or> cell (marks me) r c = 3 then Inr None
                   else (case map_of (players rm) oppId of None \<Rightarrow> Inl TypeError
                     | Some opp \<Rightarrow>
                         let cellId = cell (board opp) r c in
                         if cellId = EMPTY
                         then Inr (Some (rm\<lparr>players :=
                                  AList.update (propKey pid) (me\<lparr>marks := setCell (marks me) r c 3\<rparr>)
                                    (players rm),
                                turn := Some oppId\<rparr>))
                         else (case find (\<lambda>s. ship_id s = cellId) (ships opp) of
                             None \<Rightarrow> Inl TypeError
                           | Some ship \<Rightarrow>
                               let ps1 = AList.update (propKey pid)
                                           (me\<lparr>marks := setCell (marks me) r c 2\<rparr>) (players rm);
                                   ps2 = AList.map_entry oppId
                                           (\<lambda>q. q\<lparr>ships := hitShip cellId (r, c) (ships q)\<rparr>) ps1;
                                   oppAllSunk = allSunk (hitShip cellId (r, c) (ships opp))
                               in if oppAllSunk
                                  then Inr (Some (rm\<lparr>players := ps2, phase := Gameover,
                                                    winner := pid\<rparr>))
                                  else Inr (Some (rm\<lparr>players := ps2, turn := Some oppId\<rparr>)))))))"

definition fire :: "nat \<Rightarrow> conn \<Rightarrow> server \<Rightarrow> int \<Rightarrow> int \<Rightarrow> crash + server \<times> sent" where
  "fire wid ws srv r0 c0 =
     (case getRoom ws srv of None \<Rightarrow> Inr (srv, [])
      | Some rm \<Rightarrow>
          (case fireRoom rm (ws_playerId ws) r0 c0 of
             Inl x \<Rightarrow> Inl x
           | Inr None \<Rightarrow> Inr (srv, [])
           | Inr (Some rm') \<Rightarrow>
               let code = propKey (ws_room ws);
                   srv' = srv\<lparr>rooms := (rooms srv)(code \<mapsto> rm')\<rparr>
               in Inr (srv', broadcastRoom srv' code)))"

definition requestState :: "nat \<Rightarrow> conn \<Rightarrow> server \<Rightarrow> server \<times> sent" where
  "requestState wid ws srv =
     (case getRoom ws srv of None \<Rightarrow> (srv, [])
      | Some rm \<Rightarrow> (srv, [(wid, ROOM_STATE (roomStateFor ws rm))]))"

text \<open>The \<open>switch (msg.type)\<close>.\<close>

fun handle :: "env \<Rightarrow> nat \<Rightarrow> conn \<Rightarrow> server \<Rightarrow> msg \<Rightarrow> crash + server \<times> sent" where
  "handle e wid ws srv CREATE_ROOM = Inr (createRoom e wid srv)"
| "handle e wid ws srv (JOIN_ROOM code) = Inr (joinRoom e wid ws srv code)"
| "handle e wid ws srv (PLACE_FLEET payload rdy) = Inr (placeFleet e wid ws srv payload rdy)"
| "handle e wid ws srv (FIRE r c) = fire wid ws srv r c"
| "handle e wid ws srv REQUEST_STATE = Inr (requestState wid ws srv)"
| "handle e wid ws srv UNKNOWN_TYPE = Inr (srv, [])"
| "handle e wid ws srv JOIN_ROOM_CODE_NOT_STRING = Inl TypeError"
| "handle e wid ws srv JSON_NULL = Inl TypeError"

text \<open>\<open>ws.on('message')\<close>: the rate limit first, then \<open>JSON.parse\<close> (\<open>None\<close> is a
  buffer that does not parse), then the switch.\<close>

definition onMessage :: "env \<Rightarrow> nat \<Rightarrow> msg option \<Rightarrow> server \<Rightarrow> crash + server \<times> sent" where
  "onMessage e wid raw srv =
     (case map_of (clients srv) wid of None \<Rightarrow> Inr (srv, [])
      | Some ws \<Rightarrow>
          let verdict = ok (now e) (ws_okRate ws);
              ws1 = ws\<lparr>ws_okRate := snd verdict\<rparr>;
              srv1 = srv\<lparr>clients := AList.update wid ws1 (clients srv)\<rparr>
          in if \<not> fst verdict then Inr (srv1, [])
             else (case raw of None \<Rightarrow> Inr (srv1, []) | Some m \<Rightarrow> handle e wid ws1 srv1 m))"

text \<open>\<open>wss.on('connection')\<close> and \<open>ws.on('close')\<close> with \<open>cleanupRooms\<close>: a closed
  socket is no longer in \<open>wss.clients\<close>, and every room without a socket bound to its
  code is deleted.\<close>

definition onConnection :: "env \<Rightarrow> nat \<Rightarrow> server \<Rightarrow> server" where
  "onConnection e wid srv =
     (if wid \<in> set (map fst (clients srv)) then srv
      else srv\<lparr>clients := clients srv @
             [(wid, \<lparr>ws_room = None, ws_playerId = None, ws_okRate = rateLimiter (now e)\<rparr>)]\<rparr>)"

definition cleanupRooms :: "server \<Rightarrow> server" where
  "cleanupRooms srv =
     srv\<lparr>rooms := (\<lambda>code. if (\<exists>ws \<in> set (map snd (clients srv)). ws_room ws = Some code)
                           then rooms srv code else None)\<rparr>"

definition onClose :: "nat \<Rightarrow> server \<Rightarrow> server" where
  "onClose wid srv = cleanupRooms (srv\<lparr>clients := AList.delete wid (clients srv)\<rparr>)"

datatype event = Connection nat | Message nat "msg option" | Close nat

fun step :: "env \<Rightarrow> event \<Rightarrow> server \<Rightarrow> crash + server \<times> sent" where
  "step e (Connection wid) srv = Inr (onConnection e wid srv, [])"
| "step e (Message wid raw) srv = onMessage e wid raw srv"
| "step e (Close wid) srv = Inr (onClose wid srv, [])"

definition server0 :: server where
  "server0 = \<lparr>rooms = Map.empty, clients = []\<rparr>"

text \<open>The states the server can be in: from the start, by events that do not crash.\<close>

inductive reachable :: "server \<Rightarrow> bool" where
  reach_start: "reachable server0"
| reach_step: "reachable srv \<Longrightarrow> step e ev srv = Inr (srv', outs) \<Longrightarrow> reachable srv'"

text \<open>A run of events, each with the draws of the environment.\<close>

fun runEvents :: "(env \<times> event) list \<Rightarrow> server \<Rightarrow> crash + server" where
  "runEvents [] srv = Inr srv"
| "runEvents (x # xs) srv =
     (case step (fst x) (snd x) srv of Inl err \<Rightarrow> Inl err | Inr res \<Rightarrow> runEvents xs (fst res))"

definition roomAfter :: "(env \<times> event) list \<Rightarrow> string \<Rightarrow> room option" where
  "roomAfter evs code = (case runEvents evs server0 of Inl err \<Rightarrow> None | Inr srv \<Rightarrow> rooms srv code)"

subsection \<open>The phase, turn and winner of a room\<close>

text \<open>What the spec claims of every room, and what the handlers keep: \<open>turn\<close> is set
  from the start of the battle on and stays at the winner when the game is over.\<close>

definition claimedTurnWinner :: "room \<Rightarrow> bool" where
  "claimedTurnWinner rm =
     ((turn rm \<noteq> None) = (phase rm = Battle) \<and> (winner rm \<noteq> None) = (phase rm = Gameover))"

definition turnWinnerOk :: "room \<Rightarrow> bool" where
  "turnWinnerOk rm =
     ((phase rm = Placing \<longrightarrow> turn rm = None \<and> winner rm = None) \<and>
      (phase rm = Battle \<longrightarrow> turn rm \<noteq> None \<and> winner rm = None) \<and>
      (phase rm = Gameover \<longrightarrow> winner rm \<noteq> None \<and> turn rm = winner rm))"

definition allRoomsOk :: "server \<Rightarrow> bool" where
  "allRoomsOk srv = (\<forall>code rm. rooms srv code = Some rm \<longrightarrow> turnWinnerOk rm)"

text \<open>The socket and the server after a run of events from the start.\<close>

definition connAfter :: "(env \<times> event) list \<Rightarrow> nat \<Rightarrow> (conn \<times> server) option" where
  "connAfter evs wid =
     (case runEvents evs server0 of Inl err \<Rightarrow> None
      | Inr srv \<Rightarrow> (case map_of (clients srv) wid of None \<Rightarrow> None | Some ws \<Rightarrow> Some (ws, srv)))"

definition stateAfter :: "(env \<times> event) list \<Rightarrow> server" where
  "stateAfter evs = (case runEvents evs server0 of Inl err \<Rightarrow> server0 | Inr srv \<Rightarrow> srv)"

definition socketAfter :: "(env \<times> event) list \<Rightarrow> nat \<Rightarrow> conn" where
  "socketAfter evs wid =
     (case map_of (clients (stateAfter evs)) wid of
        None \<Rightarrow> \<lparr>ws_room = None, ws_playerId = None, ws_okRate = rateLimiter 0\<rparr>
      | Some ws \<Rightarrow> ws)"

subsection \<open>What every stored player satisfies\<close>

text \<open>The grids of a player are 10 by 10, and every cell of the board is empty or holds
  the identifier of a ship of the player's fleet (so \<open>FIRE\<close> finds the ship it hits).
  The keys of \<open>room.players\<close> are the keys of an object: no key twice.\<close>

definition playerOk :: "player \<Rightarrow> bool" where
  "playerOk p =
     (shape10 (board p) \<and> shape10 (marks p) \<and>
      (\<forall>rc \<in> set coords. cell (board p) (fst rc) (snd rc) = EMPTY \<or>
                          cell (board p) (fst rc) (snd rc) \<in> ship_id ` set (ships p)))"

definition roomPlayersOk :: "room \<Rightarrow> bool" where
  "roomPlayersOk rm =
     (distinct (map fst (players rm)) \<and> (\<forall>kp \<in> set (players rm). playerOk (snd kp)))"

definition allPlayersOk :: "server \<Rightarrow> bool" where
  "allPlayersOk srv = (\<forall>code rm. rooms srv code = Some rm \<longrightarrow> roomPlayersOk rm)"

subsection \<open>The situations the claims about the handlers speak of\<close>

text \<open>A socket bound to a player of a room that is in the placing phase.\<close>

definition placing :: "conn \<Rightarrow> server \<Rightarrow> bool" where
  "placing ws srv =
     (case getRoom ws srv of None \<Rightarrow> False
      | Some rm \<Rightarrow> phase rm = Placing \<and> playerOf rm (ws_playerId ws) \<noteq> None)"

text \<open>The turn holder of a room in battle (with players as every room stores them)
  fires at a cell that its marks grid already holds as a hit (2) or a miss (3).\<close>

definition firesAtMarked :: "conn \<Rightarrow> server \<Rightarrow> int \<Rightarrow> int \<Rightarrow> bool" where
  "firesAtMarked ws srv r0 c0 =
     (case getRoom ws srv of None \<Rightarrow> False
      | Some rm \<Rightarrow>
          roomPlayersOk rm \<and> phase rm = Battle \<and> turn rm = ws_playerId ws \<and>
          (case playerOf rm (ws_playerId ws) of None \<Rightarrow> False
           | Some me \<Rightarrow>
               cell (marks me) (clamp (toInt32 r0) 0 (SIZE - 1)) (clamp (toInt32 c0) 0 (SIZE - 1))
                 \<in> {2, 3}))"

text \<open>The turn holder of a room in battle (with players as every room stores them)
  fires at an unmarked cell that holds a ship of the opponent, and with this hit every
  ship of the opponent has as many hits as cells.\<close>

definition winningShot :: "room \<Rightarrow> string option \<Rightarrow> int \<Rightarrow> int \<Rightarrow> bool" where
  "winningShot rm pid r0 c0 =
     (roomPlayersOk rm \<and> phase rm = Battle \<and> turn rm = pid \<and>
      (case playerOf rm pid of None \<Rightarrow> False
       | Some me \<Rightarrow>
          (case otherPlayerId rm pid of None \<Rightarrow> False
           | Some oppId \<Rightarrow>
              (case map_of (players rm) oppId of None \<Rightarrow> False
               | Some opp \<Rightarrow>
                   let r = clamp (toInt32 r0) 0 (SIZE - 1);
                       c = clamp (toInt32 c0) 0 (SIZE - 1)
                   in cell (marks me) r c \<noteq> 2 \<and> cell (marks me) r c \<noteq> 3 \<and>
                      cell (board opp) r c \<noteq> EMPTY \<and>
                      find (\<lambda>s. ship_id s = cell (board opp) r c) (ships opp) \<noteq> None \<and>
                      allSunk (hitShip (cell (board opp) r c) (r, c) (ships opp))))))"

text \<open>The same, for the socket that fires.\<close>

definition firesWinningShot :: "conn \<Rightarrow> server \<Rightarrow> int \<Rightarrow> int \<Rightarrow> bool" where
  "firesWinningShot ws srv r0 c0 =
     (case getRoom ws srv of None \<Rightarrow> False
      | Some rm \<Rightarrow> winningShot rm (ws_playerId ws) r0 c0)"

text \<open>A room under the (trimmed) code with fewer than two players, none of them under the
  UUID that is drawn (with players as every room stores them).\<close>

definition joinable :: "server \<Rightarrow> string \<Rightarrow> string \<Rightarrow> bool" where
  "joinable srv code uuid =
     (case rooms srv (trim code) of None \<Rightarrow> False
      | Some rm \<Rightarrow> length (players rm) < 2 \<and> uuid \<notin> fst ` set (players rm) \<and>
                   roomPlayersOk rm)"

subsection \<open>Concrete inputs for the witnesses\<close>

definition burst :: "int list" where
  "burst = replicate 15 1000 @ replicate 15 1001"

definition boardA :: "int grid" where
  "boardA =
    [[1, 1, 1, 1, 1, 0, 0, 0, 0, 0],
     [0, 0, 0, 0, 0, 0, 0, 0, 0, 0],
     [2, 2, 2, 2, 0, 0, 0, 0, 0, 0],
     [0, 0, 0, 0, 0, 0, 0, 0, 0, 0],
     [3, 3, 3, 0, 0, 0, 0, 0, 0, 0],
     [0, 0, 0, 0, 0, 0, 0, 0, 0, 0],
     [4, 4, 4, 0, 0, 0, 0, 0, 0, 0],
     [0, 0, 0, 0, 0, 0, 0, 0, 0, 0],
     [5, 5, 0, 0, 0, 0, 0, 0, 0, 0],
     [0, 0, 0, 0, 0, 0, 0, 0, 0, 0]]"

definition marksA :: "int grid" where
  "marksA =
    [[2, 3, 0, 0, 0, 3, 0, 0, 0, 0],
     [3, 0, 0, 0, 0, 0, 0, 0, 0, 0],
     [0, 2, 0, 0, 0, 0, 0, 0, 0, 0],
     [0, 0, 0, 0, 0, 0, 0, 0, 0, 0],
     [0, 0, 0, 0, 0, 0, 0, 0, 0, 0],
     [0, 0, 0, 0, 0, 0, 0, 0, 0, 0],
     [0, 0, 0, 0, 0, 0, 0, 0, 0, 0],
     [0, 0, 0, 0, 0, 0, 0, 0, 0, 0],
     [0, 0, 0, 0, 0, 0, 0, 0, 0, 0],
     [0, 0, 0, 0, 0, 0, 0, 0, 0, 3]]"

definition placementW :: "placed list" where
  "placementW =
    [\<lparr>p_id = 7, p_r = 0, p_c = 0, p_len = 5, p_horizontal = True\<rparr>,
     \<lparr>p_id = 3, p_r = 2, p_c = 9, p_len = 4, p_horizontal = False\<rparr>,
     \<lparr>p_id = 12, p_r = 2, p_c = 0, p_len = 3, p_horizontal = True\<rparr>,
     \<lparr>p_id = 5, p_r = 4, p_c = 4, p_len = 3, p_horizontal = False\<rparr>,
     \<lparr>p_id = 9, p_r = 9, p_c = 0, p_len = 2, p_horizontal = True\<rparr>]"

definition boardW :: "int grid" where
  "boardW =
    [[7, 7, 7, 7, 7, 0, 0, 0, 0, 0],
     [0, 0, 0, 0, 0, 0, 0, 0, 0, 0],
     [12, 12, 12, 0, 0, 0, 0, 0, 0, 3],
     [0, 0, 0, 0, 0, 0, 0, 0, 0, 3],
     [0, 0, 0, 0, 5, 0, 0, 0, 0, 3],
     [0, 0, 0, 0, 5, 0, 0, 0, 0, 3],
     [0, 0, 0, 0, 5, 0, 0, 0, 0, 0],
     [0, 0, 0, 0, 0, 0, 0, 0, 0, 0],
     [0, 0, 0, 0, 0, 0, 0, 0, 0, 0],
     [9, 9, 0, 0, 0, 0, 0, 0, 0, 0]]"

text \<open>An L: the run along row 0 has a cell of its identifier below its first cell.\<close>

definition boardL :: "int grid" where
  "boardL =
    [[1, 1, 1, 0, 0, 0, 0, 0, 0, 0],
     [1, 0, 0, 0, 0, 0, 0, 0, 0, 0],
     [0, 0, 0, 0, 0, 0, 0, 0, 0, 0],
     [0, 0, 0, 0, 0, 0, 0, 0, 0, 0],
     [0, 0, 0, 0, 0, 0, 0, 0, 0, 0],
     [0, 0, 0, 0, 0, 0, 0, 0, 0, 0],
     [0, 0, 0, 0, 0, 0, 0, 0, 0, 0],
     [0, 0, 0, 0, 0, 0, 0, 0, 0, 0],
     [0, 0, 0, 0, 0, 0, 0, 0, 0, 0],
     [0, 0, 0, 0, 0, 0, 0, 0, 0, 0]]"

text \<open>The identifier 3 on two separate runs of three cells; no identifier 5.\<close>

definition boardDup :: "int grid" where
  "boardDup =
    [[1, 1, 1, 1, 1, 0, 0, 0, 0, 0],
     [0, 0, 0, 0, 0, 0, 0, 0, 0, 0],
     [2, 2, 2, 2, 0, 0, 0, 0, 0, 0],
     [0, 0, 0, 0, 0, 0, 0, 0, 0, 0],
     [3, 3, 3, 0, 0, 0, 0, 0, 0, 0],
     [0, 0, 0, 0, 0, 0, 0, 0, 0, 0],
     [3, 3, 3, 0, 0, 0, 0, 0, 0, 0],
     [0, 0, 0, 0, 0, 0, 0, 0, 0, 0],
     [4, 4, 0, 0, 0, 0, 0, 0, 0, 0],
     [0, 0, 0, 0, 0, 0, 0, 0, 0, 0]]"

text \<open>The fleet of \<open>boardA\<close> and a second run under the identifier 5: six runs.\<close>

definition boardSix :: "int grid" where
  "boardSix =
    [[1, 1, 1, 1, 1, 0, 0, 0, 0, 0],
     [0, 0, 0, 0, 0, 0, 0, 0, 0, 0],
     [2, 2, 2, 2, 0, 0, 0, 0, 0, 0],
     [0, 0, 0, 0, 0, 0, 0, 0, 0, 0],
     [3, 3, 3, 0, 0, 0, 0, 0, 0, 0],
     [0, 0, 0, 0, 0, 0, 0, 0, 0, 0],
     [4, 4, 4, 0, 0, 0, 0, 0, 0, 0],
     [0, 0, 0, 0, 0, 0, 0, 0, 0, 0],
     [5, 5, 0, 0, 5, 5, 0, 0, 0, 0],
     [0, 0, 0, 0, 0, 0, 0, 0, 0, 0]]"

text \<open>A game played to the end. Two sockets; socket 1 creates room 100000, both join
  (players \<open>A\<close> and \<open>B\<close>) and place the fleet of \<open>boardA\<close>, ready; \<open>A\<close> gets the
  first turn and hits a ship cell with every shot, \<open>B\<close> misses with every shot. The
  events are 2000 ms apart, so the rate limiter lets every message through.\<close>

definition drawn :: "int \<Rightarrow> string \<Rightarrow> env" where
  "drawn t uuid = \<lparr>now = t, code6 = ''100000'', randomUUID = uuid, randomIsOne = False\<rparr>"

definition lobby :: "(env \<times> event) list" where
  "lobby =
    [(drawn 2000 '''', Connection 1),
     (drawn 4000 '''', Message 1 (Some CREATE_ROOM)),
     (drawn 6000 ''A'', Message 1 (Some (JOIN_ROOM (Some ''100000''))))]"

definition openingMoves :: "(env \<times> event) list" where
  "openingMoves =
    [(drawn 2000 '''', Connection 1),
     (drawn 4000 '''', Connection 2),
     (drawn 6000 '''', Message 1 (Some CREATE_ROOM)),
     (drawn 8000 ''A'', Message 1 (Some (JOIN_ROOM (Some ''100000'')))),
     (drawn 10000 ''B'', Message 2 (Some (JOIN_ROOM (Some ''100000'')))),
     (drawn 12000 '''', Message 1 (Some (PLACE_FLEET (Some boardA) True))),
     (drawn 14000 '''', Message 2 (Some (PLACE_FLEET (Some boardA) True)))]"

definition volley :: "(env \<times> event) list" where
  "volley =
    [(drawn 16000 '''', Message 1 (Some (FIRE 0 0))),
     (drawn 18000 '''', Message 2 (Some (FIRE 1 0))),
     (drawn 20000 '''', Message 1 (Some (FIRE 0 1))),
     (drawn 22000 '''', Message 2 (Some (FIRE 1 1))),
     (drawn 24000 '''', Message 1 (Some (FIRE 0 2))),
     (drawn 26000 '''', Message 2 (Some (FIRE 1 2))),
     (drawn 28000 '''', Message 1 (Some (FIRE 0 3))),
     (drawn 30000 '''', Message 2 (Some (FIRE 1 3))),
     (drawn 32000 '''', Message 1 (Some (FIRE 0 4))),
     (drawn 34000 '''', Message 2 (Some (FIRE 1 4))),
     (drawn 36000 '''', Message 1 (Some (FIRE 2 0))),
     (drawn 38000 '''', Message 2 (Some (FIRE 1 5))),
     (drawn 40000 '''', Message 1 (Some (FIRE 2 1))),
     (drawn 42000 '''', Message 2 (Some (FIRE 1 6))),
     (drawn 44000 '''', Message 1 (Some (FIRE 2 2))),
     (drawn 46000 '''', Message 2 (Some (FIRE 1 7))),
     (drawn 48000 '''', Message 1 (Some (FIRE 2 3))),
     (drawn 50000 '''', Message 2 (Some (FIRE 1 8))),
     (drawn 52000 '''', Message 1 (Some (FIRE 4 0))),
     (drawn 54000 '''', Message 2 (Some (FIRE 1 9))),
     (drawn 56000 '''', Message 1 (Some (FIRE 4 1))),
     (drawn 58000 '''', Message 2 (Some (FIRE 3 0))),
     (drawn 60000 '''', Message 1 (Some (FIRE 4 2))),
     (drawn 62000 '''', Message 2 (Some (FIRE 3 1))),
     (drawn 64000 '''', Message 1 (Some (FIRE 6 0))),
     (drawn 66000 '''', Message 2 (Some (FIRE 3 2))),
     (drawn 68000 '''', Message 1 (Some (FIRE 6 1))),
     (drawn 70000 '''', Message 2 (Some (FIRE 3 3))),
     (drawn 72000 '''', Message 1 (Some (FIRE 6 2))),
     (drawn 74000 '''', Message 2 (Some (FIRE 3 4))),
     (drawn 76000 '''', Message 1 (Some (FIRE 8 0))),
     (drawn 78000 '''', Message 2 (Some (FIRE 3 5)))]"

definition lastShot :: "env \<times> event" where
  "lastShot = (drawn 80000 [], Message 1 (Some (FIRE 8 1)))"

definition gameBeforeLastShot :: "(env \<times> event) list" where
  "gameBeforeLastShot = openingMoves @ volley"

definition fullGame :: "(env \<times> event) list" where
  "fullGame = gameBeforeLastShot @ [lastShot]"

text \<open>The first two shots of that game: \<open>A\<close> has hit at (0, 0), \<open>B\<close> has missed, and
  it is the turn of \<open>A\<close> again.\<close>

definition shortGame :: "(env \<times> event) list" where
  "shortGame = openingMoves @ take 2 volley"

text \<open>A board of nine rows.\<close>

definition boardNine :: "int grid" where
  "boardNine = take 9 boardA"

section \<open>Properties\<close>

subsection \<open>Grids\<close>

lemma shape10_setCell: "shape10 g \<Longrightarrow> shape10 (setCell g r c v)"
proof (cases "nat r < length g")
  case True
  assume "shape10 g"
  then show ?thesis using True unfolding shape10_def setCell_def
    by (auto dest!: set_update_subset_insert [THEN subsetD])
next
  case False
  assume "shape10 g"
  moreover have "setCell g r c v = g"
    using False by (simp add: setCell_def list_update_beyond)
  ultimately show ?thesis by simp
qed

lemma cell_setCell:
  "shape10 g \<Longrightarrow> inb r c \<Longrightarrow> inb r' c' \<Longrightarrow>
   cell (setCell g r c v) r' c' = (if r' = r \<and> c' = c then v else cell g r' c')"
  unfolding shape10_def setCell_def cell_def inb_def
  by (auto simp: nth_list_update)

lemma set_coords: "set coords = {rc. inb (fst rc) (snd rc)}"
  unfolding coords_def inb_def by (auto simp: image_iff)

lemma distinct_coords: "distinct coords"
  by code_simp

subsection \<open>The rate limiter\<close>

lemma acceptedIn_Cons:
  "acceptedIn a ((t, b) # vs) =
     (if b \<and> a \<le> t \<and> t \<le> a + 1000 then 1 else 0) + acceptedIn a vs"
  by (simp add: acceptedIn_def)

text \<open>With the window start \<open>w\<close> and the count \<open>n\<close> of the closure, and arrival times
  that never decrease: an interval that starts at or before \<open>w\<close> holds at most what is
  left of the current window; one that starts inside the current window holds that and
  one more window; no interval of 1000 ms meets three windows.\<close>

lemma window_bound:
  "sorted (windowStart L # ts) \<Longrightarrow> 0 \<le> count L \<Longrightarrow>
   int (acceptedIn a (verdicts L ts)) \<le>
     (if a + 1000 < windowStart L then 0
      else if a \<le> windowStart L then max 0 (15 - count L)
      else if a \<le> windowStart L + 1000 then max 0 (15 - count L) + 15
      else 30)"
proof (induction ts arbitrary: L)
  case Nil
  then show ?case by (simp add: acceptedIn_def)
next
  case (Cons t ts)
  let ?L' = "snd (ok t L)"
  have s: "sorted (windowStart ?L' # ts)" and c: "0 \<le> count ?L'"
    using Cons.prems by (auto simp: ok_def Let_def)
  note ih = Cons.IH [OF s c]
  show ?case
  proof (cases "t - windowStart L > 1000")
    case True
    then have L': "windowStart ?L' = t" "count ?L' = 1" "fst (ok t L)"
      by (auto simp: ok_def Let_def)
    show ?thesis using ih True Cons.prems unfolding L'
      by (auto simp add: acceptedIn_Cons L' split: if_splits)
  next
    case False
    then have L': "windowStart ?L' = windowStart L" "count ?L' = count L + 1"
      "fst (ok t L) = (count L + 1 \<le> 15)"
      by (auto simp: ok_def Let_def)
    show ?thesis using ih False Cons.prems unfolding L'
      by (auto simp add: acceptedIn_Cons L' split: if_splits)
  qed
qed

text \<open>
  C8, as stated, fails: the window is a fixed one that restarts at the first message
  arriving more than 1000 ms after its start, not a sliding one. A connection opened at
  time 0 that sends 15 messages at time 1000 and 15 at time 1001 has all 30 accepted,
  and all 30 lie within the interval from 1000 to 2000.
\<close>

theorem C8_rolling_window_counterexample:
  "\<not> acceptedIn 1000 (verdicts (rateLimiter 0) burst) \<le> 15"
proof -
  have "acceptedIn 1000 (verdicts (rateLimiter 0) burst) = 30"
    by code_simp
  then show ?thesis by simp
qed

text \<open>
  C8, amended: for arrival times that never decrease (the connection is opened at
  \<open>t0\<close>), the limiter accepts at most 30 messages, twice \<open>RATE_LIMIT_MAX\<close>, within any
  interval of 1000 ms. A verdict is returned at once: a message is accepted or dropped,
  never queued.
\<close>

theorem C8_rate_limit_two_windows:
  assumes "sorted (t0 # ts)"
  shows "acceptedIn a (verdicts (rateLimiter t0) ts) \<le> 2 * nat RATE_LIMIT_MAX"
proof -
  have "int (acceptedIn a (verdicts (rateLimiter t0) ts)) \<le> 30"
    using window_bound [of "rateLimiter t0" ts a] assms
    by (simp add: rateLimiter_def split: if_splits)
  then show ?thesis by simp
qed

theorem C8_rate_limit_two_windows_witness:
  "sorted (0 # burst) \<and> acceptedIn 1000 (verdicts (rateLimiter 0) burst) \<le> 2 * nat RATE_LIMIT_MAX"
proof -
  have h: "sorted (0 # burst)" by code_simp
  from C8_rate_limit_two_windows [OF h] h show ?thesis by blast
qed

subsection \<open>The projection of the opponent's board\<close>

lemma foldl_maskCell:
  "shape10 out \<Longrightarrow> \<forall>rc \<in> set cs. inb (fst rc) (snd rc) \<Longrightarrow>
   shape10 (foldl (maskCell M) out cs) \<and>
   (\<forall>r c. inb r c \<longrightarrow> cell (foldl (maskCell M) out cs) r c =
      (if (r, c) \<in> set cs \<and> \<not> (case M of None \<Rightarrow> False | Some m \<Rightarrow> cell m r c = 2)
       then EMPTY else cell out r c))"
proof (induction cs arbitrary: out)
  case Nil
  then show ?case by simp
next
  case (Cons rc cs)
  obtain r0 c0 where rc: "rc = (r0, c0)" by (cases rc)
  have i0: "inb r0 c0" using Cons.prems(2) rc by simp
  have sh: "shape10 (maskCell M out rc)"
    using Cons.prems(1) by (simp add: maskCell_def rc shape10_setCell Let_def)
  have rest: "\<forall>rc \<in> set cs. inb (fst rc) (snd rc)" using Cons.prems(2) by simp
  from Cons.IH [OF sh rest] show ?case
    using Cons.prems(1) i0
    by (auto simp: rc maskCell_def cell_setCell Let_def split: option.splits)
qed

text \<open>
  C9: for a requester's marks grid \<open>M\<close> and an opponent's board \<open>B\<close> (both 10 by 10),
  the projected board is 10 by 10 and its cell \<open>(r, c)\<close> is \<open>B[r][c]\<close> where
  \<open>M[r][c]\<close> is 2 (a confirmed hit) and 0 (empty) everywhere else, whatever \<open>B\<close> holds
  there. So a cell of \<open>B\<close> that holds a ship shows its identifier iff \<open>M[r][c]\<close> is 2.
\<close>

theorem C9_maskOpponentBoard_projection:
  assumes "shape10 B" and "shape10 M"
  shows "\<exists>out. maskOpponentBoard (Some B) (Some M) = Some out \<and> shape10 out \<and>
           (\<forall>r c. inb r c \<longrightarrow>
              cell out r c = (if cell M r c = 2 then cell B r c else EMPTY)) \<and>
           (\<forall>r c. inb r c \<longrightarrow> cell B r c \<noteq> EMPTY \<longrightarrow>
              (cell out r c = cell B r c) = (cell M r c = 2))"
proof -
  have "\<forall>rc \<in> set coords. inb (fst rc) (snd rc)" by (simp add: set_coords)
  from foldl_maskCell [OF assms(1) this, of "Some M"] show ?thesis
    by (simp add: maskOpponentBoard_def set_coords)
qed

theorem C9_maskOpponentBoard_projection_witness:
  "shape10 boardA \<and> shape10 marksA \<and>
   (\<exists>out. maskOpponentBoard (Some boardA) (Some marksA) = Some out \<and>
      cell out 0 0 = 1 \<and> cell out 2 1 = 2 \<and> cell out 0 1 = 0 \<and> cell out 4 0 = 0)"
proof -
  have b: "shape10 boardA" by (simp add: shape10_def boardA_def)
  have m: "shape10 marksA" by (simp add: shape10_def marksA_def)
  from C9_maskOpponentBoard_projection [OF b m] obtain out
    where o: "maskOpponentBoard (Some boardA) (Some marksA) = Some out"
      and c: "\<And>r c. inb r c \<Longrightarrow>
                cell out r c = (if cell marksA r c = 2 then cell boardA r c else 0)"
    by blast
  have v: "cell marksA 0 0 = 2" "cell boardA 0 0 = 1" "cell marksA 2 1 = 2"
    "cell boardA 2 1 = 2" "cell marksA 0 1 = 3" "cell marksA 4 0 = 0"
    by (simp_all add: cell_def marksA_def boardA_def)
  have "cell out 0 0 = 1" "cell out 2 1 = 2" "cell out 0 1 = 0" "cell out 4 0 = 0"
    using c [of 0 0] c [of 2 1] c [of 0 1] c [of 4 0] by (simp_all add: inb_def v)
  with b m o show ?thesis by blast
qed

subsection \<open>The scan of the sanitizer and the runs it extracts\<close>

lemma scanAll_trace:
  "map_option snd (scanAll bd (v, shs) cs) =
     (if \<exists>run \<in> set (traceRuns bd v cs). branches bd (fst run) (snd run) then None
      else Some (shs @ map runShip (traceRuns bd v cs)))"
proof (induction cs arbitrary: v shs)
  case Nil
  then show ?case by simp
next
  case (Cons rc cs)
  obtain r c where rc: "rc = (r, c)" by (cases rc)
  show ?case
  proof (cases "cell bd r c = 0 \<or> cell v r c")
    case True
    then show ?thesis using Cons.IH [of v shs]
      by (simp add: rc scanCell_def Let_def)
  next
    case False
    obtain v' run where col: "collect bd (cell bd r c) r c v = (v', run)"
      by (cases "collect bd (cell bd r c) r c v")
    show ?thesis
    proof (cases "branches bd (cell bd r c) run")
      case True
      then show ?thesis using False col by (simp add: rc scanCell_def Let_def)
    next
      case nb: False
      show ?thesis
        using False col nb
          Cons.IH [of v' "shs @ [\<lparr>ship_id = cell bd r c, ship_length = length run, cells = run, hits = []\<rparr>]"]
        by (simp add: rc scanCell_def Let_def runShip_def)
    qed
  qed
qed

lemma extractShips_trace:
  "extractShips bd =
     (if \<exists>run \<in> set (extractedRuns bd). branches bd (fst run) (snd run) then None
      else Some (map runShip (extractedRuns bd)))"
  using scanAll_trace [of bd noVisited "[]" coords]
  by (simp add: extractShips_def extractedRuns_def)

lemma markAll_cell:
  "shape10 v \<Longrightarrow> \<forall>rc \<in> set cs. inb (fst rc) (snd rc) \<Longrightarrow>
   shape10 (markAll v cs) \<and>
   (\<forall>r c. inb r c \<longrightarrow> cell (markAll v cs) r c = (cell v r c \<or> (r, c) \<in> set cs))"
proof (induction cs arbitrary: v)
  case Nil
  then show ?case by (simp add: markAll_def)
next
  case (Cons rc cs)
  have sh: "shape10 (setCell v (fst rc) (snd rc) True)"
    using Cons.prems(1) by (rule shape10_setCell)
  have rest: "\<forall>rc \<in> set cs. inb (fst rc) (snd rc)" using Cons.prems(2) by simp
  have i0: "inb (fst rc) (snd rc)" using Cons.prems(2) by simp
  from Cons.IH [OF sh rest] show ?case
    using Cons.prems(1) i0
    by (cases rc) (auto simp: markAll_def cell_setCell)
qed

lemma markAll_snoc: "markAll v (cs @ [rc]) = setCell (markAll v cs) (fst rc) (snd rc) True"
  by (simp add: markAll_def)

lemma markAll_Cons: "markAll v (rc # cs) = markAll (setCell v (fst rc) (snd rc) True) cs"
  by (simp add: markAll_def)

lemma upt_0_Suc_map: "map f [0..<Suc n] = f 0 # map (\<lambda>k. f (Suc k)) [0..<n]"
  by (simp add: upt_rec [of 0 "Suc n"] map_Suc_upt [symmetric] del: upt_Suc)

lemma walkH_run:
  assumes "shape10 v"
    and "\<forall>k<n. inb r (c + int k) \<and> cell B r (c + int k) = i \<and> \<not> cell v r (c + int k)"
    and "\<not> (inb r (c + int n) \<and> cell B r (c + int n) = i)"
  shows "walkH B i r c v acc =
           (markAll v (map (\<lambda>k. (r, c + int k)) [0..<n]),
            acc @ map (\<lambda>k. (r, c + int k)) [0..<n])"
  using assms
proof (induction n arbitrary: c v acc)
  case 0
  then show ?case by (subst walkH.simps) (auto simp: markAll_def)
next
  case (Suc n)
  have h0: "inb r c" "cell B r c = i" "\<not> cell v r c"
    using Suc.prems(2) [rule_format, of 0] by simp_all
  let ?v = "setCell v r c True"
  have sh: "shape10 ?v" using Suc.prems(1) by (rule shape10_setCell)
  have a: "\<forall>k<n. inb r (c + 1 + int k) \<and> cell B r (c + 1 + int k) = i \<and> \<not> cell ?v r (c + 1 + int k)"
  proof (intro allI impI)
    fix k assume "k < n"
    then have "Suc k < Suc n" by simp
    from Suc.prems(2) [rule_format, OF this]
    have "inb r (c + 1 + int k) \<and> cell B r (c + 1 + int k) = i \<and> \<not> cell v r (c + 1 + int k)"
      by (simp add: add.assoc)
    then show "inb r (c + 1 + int k) \<and> cell B r (c + 1 + int k) = i \<and> \<not> cell ?v r (c + 1 + int k)"
      using Suc.prems(1) h0(1) by (simp add: cell_setCell add.assoc)
  qed
  have b: "\<not> (inb r (c + 1 + int n) \<and> cell B r (c + 1 + int n) = i)"
    using Suc.prems(3) by (simp add: add.assoc)
  have "walkH B i r c v acc = walkH B i r (c + 1) ?v (acc @ [(r, c)])"
    using h0 by (subst walkH.simps) simp
  also have "\<dots> = (markAll ?v (map (\<lambda>k. (r, c + 1 + int k)) [0..<n]),
      (acc @ [(r, c)]) @ map (\<lambda>k. (r, c + 1 + int k)) [0..<n])"
    by (rule Suc.IH [OF sh a b])
  finally show ?case
    by (simp add: upt_0_Suc_map markAll_Cons add.assoc del: upt_Suc)
qed

lemma walkV_run:
  assumes "shape10 v"
    and "\<forall>k<n. inb (r + int k) c \<and> cell B (r + int k) c = i \<and> \<not> cell v (r + int k) c"
    and "\<not> (inb (r + int n) c \<and> cell B (r + int n) c = i)"
  shows "walkV B i r c v acc =
           (markAll v (map (\<lambda>k. (r + int k, c)) [0..<n]),
            acc @ map (\<lambda>k. (r + int k, c)) [0..<n])"
  using assms
proof (induction n arbitrary: r v acc)
  case 0
  then show ?case by (subst walkV.simps) (auto simp: markAll_def)
next
  case (Suc n)
  have h0: "inb r c" "cell B r c = i" "\<not> cell v r c"
    using Suc.prems(2) [rule_format, of 0] by simp_all
  let ?v = "setCell v r c True"
  have sh: "shape10 ?v" using Suc.prems(1) by (rule shape10_setCell)
  have a: "\<forall>k<n. inb (r + 1 + int k) c \<and> cell B (r + 1 + int k) c = i \<and> \<not> cell ?v (r + 1 + int k) c"
  proof (intro allI impI)
    fix k assume "k < n"
    then have "Suc k < Suc n" by simp
    from Suc.prems(2) [rule_format, OF this]
    have "inb (r + 1 + int k) c \<and> cell B (r + 1 + int k) c = i \<and> \<not> cell v (r + 1 + int k) c"
      by (simp add: add.assoc)
    then show "inb (r + 1 + int k) c \<and> cell B (r + 1 + int k) c = i \<and> \<not> cell ?v (r + 1 + int k) c"
      using Suc.prems(1) h0(1) by (simp add: cell_setCell add.assoc)
  qed
  have b: "\<not> (inb (r + 1 + int n) c \<and> cell B (r + 1 + int n) c = i)"
    using Suc.prems(3) by (simp add: add.assoc)
  have "walkV B i r c v acc = walkV B i (r + 1) c ?v (acc @ [(r, c)])"
    using h0 by (subst walkV.simps) simp
  also have "\<dots> = (markAll ?v (map (\<lambda>k. (r + 1 + int k, c)) [0..<n]),
      (acc @ [(r, c)]) @ map (\<lambda>k. (r + 1 + int k, c)) [0..<n])"
    by (rule Suc.IH [OF sh a b])
  finally show ?case
    by (simp add: upt_0_Suc_map markAll_Cons add.assoc del: upt_Suc)
qed

lemma cellsOf_mem:
  "(r, c) \<in> set (cellsOf p) \<longleftrightarrow>
     (if p_horizontal p then r = p_r p \<and> p_c p \<le> c \<and> c < p_c p + int (p_len p)
      else c = p_c p \<and> p_r p \<le> r \<and> r < p_r p + int (p_len p))"
proof -
  have "\<And>a (x::int) n. (x \<in> (\<lambda>k. a + int k) ` {0..<n}) = (a \<le> x \<and> x < a + int n)"
  proof
    fix a x :: int and n :: nat
    assume "a \<le> x \<and> x < a + int n"
    then have "x = a + int (nat (x - a))" "nat (x - a) \<in> {0..<n}" by auto
    then show "x \<in> (\<lambda>k. a + int k) ` {0..<n}" by (rule image_eqI)
  qed auto
  from this [of c "p_c p" "p_len p"] this [of r "p_r p" "p_len p"]
  show ?thesis by (auto simp: cellsOf_def image_iff)
qed

lemma validFleet_len: "validFleet ps \<Longrightarrow> p \<in> set ps \<Longrightarrow> 2 \<le> p_len p"
proof -
  assume v: "validFleet ps" and p: "p \<in> set ps"
  have "set (map p_len ps) = set (sort (map p_len ps))" by simp
  also have "\<dots> = {2, 3, 4, 5}" using v by (simp add: validFleet_def)
  finally have "p_len p \<in> {2, 3, 4, 5}" using p by auto
  then show ?thesis by auto
qed

lemma head_in_cells: "0 < p_len p \<Longrightarrow> headOf p \<in> set (cellsOf p)"
  by (simp add: headOf_def cellsOf_mem)

lemma validFleet_same:
  "validFleet ps \<Longrightarrow> p \<in> set ps \<Longrightarrow> q \<in> set ps \<Longrightarrow> rc \<in> set (cellsOf p) \<Longrightarrow>
   rc \<in> set (cellsOf q) \<Longrightarrow> p = q"
proof -
  assume v: "validFleet ps" and m: "p \<in> set ps" "q \<in> set ps"
    and c: "rc \<in> set (cellsOf p)" "rc \<in> set (cellsOf q)"
  have "p_id p = p_id q" using v m c unfolding validFleet_def by blast
  moreover have "inj_on p_id (set ps)" using v by (simp add: validFleet_def distinct_map)
  ultimately show ?thesis using m by (auto dest: inj_onD)
qed

lemma idAt_cell:
  assumes "validFleet ps" "p \<in> set ps" "rc \<in> set (cellsOf p)"
  shows "idAt ps rc = p_id p"
proof (cases "find (\<lambda>p. rc \<in> set (cellsOf p)) ps")
  case None
  then show ?thesis using assms by (auto simp: find_None_iff)
next
  case (Some q)
  then have "q \<in> set ps" "rc \<in> set (cellsOf q)" by (auto simp: find_Some_iff)
  with assms have "p = q" by (auto intro: validFleet_same)
  then show ?thesis using Some by (simp add: idAt_def)
qed

lemma idAt_nonzero:
  assumes "idAt ps rc \<noteq> 0"
  shows "\<exists>p \<in> set ps. rc \<in> set (cellsOf p) \<and> idAt ps rc = p_id p"
proof (cases "find (\<lambda>p. rc \<in> set (cellsOf p)) ps")
  case None
  then show ?thesis using assms by (simp add: idAt_def)
next
  case (Some q)
  then have "q \<in> set ps" "rc \<in> set (cellsOf q)" by (auto simp: find_Some_iff)
  then show ?thesis using Some by (auto simp: idAt_def)
qed

lemma idAt_owner:
  assumes "validFleet ps" "p \<in> set ps" "idAt ps rc = p_id p"
  shows "rc \<in> set (cellsOf p)"
proof -
  have "0 < p_id p" using assms by (auto simp: validFleet_def)
  then have "idAt ps rc \<noteq> 0" using assms by simp
  then obtain q where q: "q \<in> set ps" "rc \<in> set (cellsOf q)" "idAt ps rc = p_id q"
    using idAt_nonzero by blast
  have "inj_on p_id (set ps)" using assms by (simp add: validFleet_def distinct_map)
  then have "p = q" using q assms by (auto dest: inj_onD)
  then show ?thesis using q by simp
qed

lemma encodes_cell: "encodes bd ps \<Longrightarrow> inb r c \<Longrightarrow> cell bd r c = idAt ps (r, c)"
  by (auto simp: encodes_def set_coords)

lemma validFleet_inb:
  "validFleet ps \<Longrightarrow> p \<in> set ps \<Longrightarrow> (r, c) \<in> set (cellsOf p) \<Longrightarrow> inb r c"
  unfolding validFleet_def by fastforce

lemma not_branches:
  assumes "validFleet ps" "encodes bd ps" "p \<in> set ps"
  shows "\<not> branches bd (p_id p) (cellsOf p)"
  using assms
  by (auto simp: branches_def encodes_cell dest!: idAt_owner)

lemma sorted_coords: "sorted_wrt (\<lambda>a b. rank a < rank b) coords"
  by code_simp

lemma before_done:
  assumes "done @ rc # rest = coords" "inb (fst x) (snd x)" "rank x < rank rc"
  shows "x \<in> set done"
proof -
  have s: "sorted_wrt (\<lambda>a b. rank a < rank b) (done @ rc # rest)"
    using sorted_coords assms(1) by simp
  have "x \<in> set (done @ rc # rest)" using assms(1,2) set_coords by simp
  moreover have "x \<noteq> rc" using assms(3) by auto
  moreover have "x \<notin> set rest"
    using s assms(3) by (auto simp: sorted_wrt_append)
  ultimately show ?thesis by auto
qed

lemma rank_head:
  "(r, c) \<in> set (cellsOf p) \<Longrightarrow> rank (headOf p) \<le> rank (r, c)"
  by (auto simp: cellsOf_mem rank_def headOf_def split: if_splits)

lemma rank_inj:
  "inb (fst x) (snd x) \<Longrightarrow> inb (fst y) (snd y) \<Longrightarrow> rank x = rank y \<Longrightarrow> x = y"
proof -
  assume a: "inb (fst x) (snd x)" "inb (fst y) (snd y)" "rank x = rank y"
  obtain r c where x: "x = (r, c)" by (cases x)
  obtain r' c' where y: "y = (r', c')" by (cases y)
  have "r * 10 + c = r' * 10 + c'" "0 \<le> c" "c < 10" "0 \<le> c'" "c' < 10"
    using a by (simp_all add: x y rank_def inb_def)
  then have "r = r' \<and> c = c'" by arith
  then show ?thesis by (simp add: x y)
qed

lemma collect_ship:
  assumes vf: "validFleet ps" and en: "encodes bd ps" and p: "p \<in> set ps"
    and sh: "shape10 v"
    and fresh: "\<forall>rc \<in> set (cellsOf p). \<not> cell v (fst rc) (snd rc)"
  shows "collect bd (p_id p) (p_r p) (p_c p) v = (markAll v (cellsOf p), cellsOf p)"
proof -
  have len: "2 \<le> p_len p" using vf p by (rule validFleet_len)
  have own: "\<And>r c. inb r c \<Longrightarrow> (cell bd r c = p_id p) = ((r, c) \<in> set (cellsOf p))"
    using idAt_owner [OF vf p] idAt_cell [OF vf p] encodes_cell [OF en] by metis
  have inside: "\<And>r c. (r, c) \<in> set (cellsOf p) \<Longrightarrow> inb r c"
    using validFleet_inb [OF vf p] .
  show ?thesis
  proof (cases "p_horizontal p")
    case True
    have nx: "(p_r p, p_c p + 1) \<in> set (cellsOf p)"
      using len True by (simp add: cellsOf_mem)
    have o: "decideOrient bd (p_id p) (p_r p) (p_c p) = H"
      using nx inside own by (simp add: decideOrient_def)
    have a: "\<forall>k<p_len p. inb (p_r p) (p_c p + int k) \<and>
               cell bd (p_r p) (p_c p + int k) = p_id p \<and> \<not> cell v (p_r p) (p_c p + int k)"
    proof (intro allI impI)
      fix k assume "k < p_len p"
      then have m: "(p_r p, p_c p + int k) \<in> set (cellsOf p)"
        using True by (simp add: cellsOf_mem)
      then show "inb (p_r p) (p_c p + int k) \<and>
               cell bd (p_r p) (p_c p + int k) = p_id p \<and> \<not> cell v (p_r p) (p_c p + int k)"
        using inside own fresh by fastforce
    qed
    have "(p_r p, p_c p + int (p_len p)) \<notin> set (cellsOf p)"
      using True by (simp add: cellsOf_mem)
    then have b: "\<not> (inb (p_r p) (p_c p + int (p_len p)) \<and>
                   cell bd (p_r p) (p_c p + int (p_len p)) = p_id p)"
      using own by blast
    from walkH_run [OF sh a b, of "[]"] show ?thesis
      using True o by (simp add: collect_def cellsOf_def)
  next
    case False
    have "(p_r p, p_c p + 1) \<notin> set (cellsOf p)"
      using False by (simp add: cellsOf_mem)
    then have nh: "\<not> (inb (p_r p) (p_c p + 1) \<and> cell bd (p_r p) (p_c p + 1) = p_id p)"
      using own by blast
    have nx: "(p_r p + 1, p_c p) \<in> set (cellsOf p)"
      using len False by (simp add: cellsOf_mem)
    have o: "decideOrient bd (p_id p) (p_r p) (p_c p) = V"
      using nh nx inside own by (simp add: decideOrient_def)
    have a: "\<forall>k<p_len p. inb (p_r p + int k) (p_c p) \<and>
               cell bd (p_r p + int k) (p_c p) = p_id p \<and> \<not> cell v (p_r p + int k) (p_c p)"
    proof (intro allI impI)
      fix k assume "k < p_len p"
      then have m: "(p_r p + int k, p_c p) \<in> set (cellsOf p)"
        using False by (simp add: cellsOf_mem)
      then show "inb (p_r p + int k) (p_c p) \<and>
               cell bd (p_r p + int k) (p_c p) = p_id p \<and> \<not> cell v (p_r p + int k) (p_c p)"
        using inside own fresh by fastforce
    qed
    have "(p_r p + int (p_len p), p_c p) \<notin> set (cellsOf p)"
      using False by (simp add: cellsOf_mem)
    then have b: "\<not> (inb (p_r p + int (p_len p)) (p_c p) \<and>
                   cell bd (p_r p + int (p_len p)) (p_c p) = p_id p)"
      using own by blast
    from walkV_run [OF sh a b, of "[]"] show ?thesis
      using False o by (simp add: collect_def cellsOf_def)
  qed
qed

lemma filter_single:
  "distinct xs \<Longrightarrow> x \<in> set xs \<Longrightarrow> (\<forall>y \<in> set xs. P y \<longleftrightarrow> y = x) \<Longrightarrow> filter P xs = [x]"
proof (induction xs)
  case Nil
  then show ?case by simp
next
  case (Cons a xs)
  show ?case
  proof (cases "a = x")
    case True
    then have "\<forall>y \<in> set xs. \<not> P y" using Cons.prems by auto
    then have "filter P xs = []" by (simp add: filter_empty_conv)
    then show ?thesis using True Cons.prems by simp
  next
    case False
    then show ?thesis using Cons by auto
  qed
qed

lemma traceRuns_valid:
  assumes vf: "validFleet ps" and en: "encodes bd ps"
  shows "done @ todo = coords \<Longrightarrow> shape10 v \<Longrightarrow>
     (\<forall>r c. inb r c \<longrightarrow>
        cell v r c = (\<exists>p \<in> set ps. headOf p \<in> set done \<and> (r, c) \<in> set (cellsOf p))) \<Longrightarrow>
     traceRuns bd v todo = map runOf (headsIn ps todo)"
proof (induction todo arbitrary: "done" v)
  case Nil
  then show ?case by (simp add: headsIn_def)
next
  case (Cons rc rest)
  obtain r c where rc: "rc = (r, c)" by (cases rc)
  have dc: "distinct (done @ rc # rest)" using Cons.prems(1) distinct_coords by simp
  have irc: "inb r c" using Cons.prems(1) set_coords rc
    by (metis (mono_tags, lifting) fst_conv in_set_conv_decomp mem_Collect_eq snd_conv)
  have cellid: "cell bd r c = idAt ps (r, c)" using en irc by (rule encodes_cell)
  have next_eq: "(done @ [rc]) @ rest = coords" using Cons.prems(1) by simp
  have dps: "distinct ps" using vf by (auto simp: validFleet_def distinct_map)
  have heads: "\<And>q. q \<in> set ps \<Longrightarrow> headOf q \<in> set (cellsOf q)"
    using validFleet_len [OF vf] by (intro head_in_cells) fastforce
  show ?case
  proof (cases "cell bd r c = 0 \<or> cell v r c")
    case True
    have nohead: "\<forall>q \<in> set ps. headOf q \<noteq> rc"
    proof
      fix q assume q: "q \<in> set ps"
      show "headOf q \<noteq> rc"
      proof
        assume h: "headOf q = rc"
        then have m: "(r, c) \<in> set (cellsOf q)" using heads [OF q] rc by simp
        from True show False
        proof
          assume "cell bd r c = 0"
          moreover have "cell bd r c = p_id q" using cellid idAt_cell [OF vf q m] by simp
          moreover have "0 < p_id q" using vf q by (auto simp: validFleet_def)
          ultimately show False by simp
        next
          assume "cell v r c"
          then obtain p where p: "p \<in> set ps" "headOf p \<in> set done" "(r, c) \<in> set (cellsOf p)"
            using Cons.prems(3) irc by blast
          then have "p = q" using validFleet_same [OF vf _ q _ m] by blast
          then have "rc \<in> set done" using h p by simp
          then show False using dc by simp
        qed
      qed
    qed
    then have f: "filter (\<lambda>p. headOf p = rc) ps = []" by (simp add: filter_empty_conv)
    have inv: "\<forall>r c. inb r c \<longrightarrow>
        cell v r c = (\<exists>p \<in> set ps. headOf p \<in> set (done @ [rc]) \<and> (r, c) \<in> set (cellsOf p))"
      using Cons.prems(3) nohead by auto
    have "traceRuns bd v (rc # rest) = traceRuns bd v rest"
      using True by (simp add: rc Let_def)
    also have "\<dots> = map runOf (headsIn ps rest)"
      by (rule Cons.IH [OF next_eq Cons.prems(2) inv])
    finally show ?thesis using f by (simp add: headsIn_def)
  next
    case False
    then have nz: "idAt ps (r, c) \<noteq> 0" and nv: "\<not> cell v r c" using cellid by simp_all
    from idAt_nonzero [OF nz] obtain p where
      p: "p \<in> set ps" "(r, c) \<in> set (cellsOf p)" "idAt ps (r, c) = p_id p" by blast
    have hnd: "headOf p \<notin> set done"
      using nv Cons.prems(3) irc p by blast
    have hin: "inb (fst (headOf p)) (snd (headOf p))"
      using validFleet_inb [OF vf p(1), of "fst (headOf p)" "snd (headOf p)"] heads [OF p(1)]
      by simp
    have hp: "headOf p = rc"
    proof (rule ccontr)
      assume ne: "headOf p \<noteq> rc"
      have "rank (headOf p) \<le> rank rc" using rank_head [OF p(2)] rc by simp
      moreover have "rank (headOf p) \<noteq> rank rc"
        using rank_inj [OF hin, of rc] irc rc ne by auto
      ultimately have "rank (headOf p) < rank rc" by simp
      from before_done [OF Cons.prems(1) hin this] hnd show False by simp
    qed
    then have pr: "p_r p = r" "p_c p = c" by (simp_all add: headOf_def rc)
    have uniq: "\<forall>q \<in> set ps. (headOf q = rc) = (q = p)"
    proof
      fix q assume q: "q \<in> set ps"
      show "(headOf q = rc) = (q = p)"
      proof
        assume "headOf q = rc"
        then have "(r, c) \<in> set (cellsOf q)" using heads [OF q] rc by simp
        then show "q = p" using validFleet_same [OF vf q p(1) _ p(2)] by simp
      qed (simp add: hp)
    qed
    have f: "filter (\<lambda>p. headOf p = rc) ps = [p]"
      using dps p(1) uniq by (rule filter_single)
    have fresh: "\<forall>x \<in> set (cellsOf p). \<not> cell v (fst x) (snd x)"
    proof
      fix x assume x: "x \<in> set (cellsOf p)"
      have ix: "inb (fst x) (snd x)" using validFleet_inb [OF vf p(1), of "fst x" "snd x"] x by simp
      show "\<not> cell v (fst x) (snd x)"
      proof
        assume "cell v (fst x) (snd x)"
        then obtain q where q: "q \<in> set ps" "headOf q \<in> set done" "(fst x, snd x) \<in> set (cellsOf q)"
          using Cons.prems(3) ix by blast
        then have "q = p" using validFleet_same [OF vf q(1) p(1), of x] x by simp
        then show False using q hnd by simp
      qed
    qed
    have col: "collect bd (cell bd r c) r c v = (markAll v (cellsOf p), cellsOf p)"
      using collect_ship [OF vf en p(1) Cons.prems(2) fresh] cellid p(3) pr by simp
    have inbs: "\<forall>x \<in> set (cellsOf p). inb (fst x) (snd x)"
      using validFleet_inb [OF vf p(1)] by auto
    from markAll_cell [OF Cons.prems(2) inbs]
    have sh': "shape10 (markAll v (cellsOf p))"
      and mk: "\<And>r c. inb r c \<Longrightarrow>
                 cell (markAll v (cellsOf p)) r c = (cell v r c \<or> (r, c) \<in> set (cellsOf p))"
      by blast+
    have inv: "\<forall>r c. inb r c \<longrightarrow>
        cell (markAll v (cellsOf p)) r c =
          (\<exists>q \<in> set ps. headOf q \<in> set (done @ [rc]) \<and> (r, c) \<in> set (cellsOf q))"
    proof (intro allI impI)
      fix r' c' assume i': "inb r' c'"
      have "cell (markAll v (cellsOf p)) r' c' = (cell v r' c' \<or> (r', c') \<in> set (cellsOf p))"
        using mk [OF i'] .
      also have "\<dots> = ((\<exists>q \<in> set ps. headOf q \<in> set done \<and> (r', c') \<in> set (cellsOf q))
                        \<or> (r', c') \<in> set (cellsOf p))"
        using Cons.prems(3) i' by simp
      also have "\<dots> = (\<exists>q \<in> set ps. headOf q \<in> set (done @ [rc]) \<and> (r', c') \<in> set (cellsOf q))"
        using uniq p(1) hp by auto
      finally show "cell (markAll v (cellsOf p)) r' c' =
          (\<exists>q \<in> set ps. headOf q \<in> set (done @ [rc]) \<and> (r', c') \<in> set (cellsOf q))" .
    qed
    have "traceRuns bd v (rc # rest) =
            (p_id p, cellsOf p) # traceRuns bd (markAll v (cellsOf p)) rest"
      using False col cellid p(3) by (simp add: rc Let_def)
    also have "traceRuns bd (markAll v (cellsOf p)) rest = map runOf (headsIn ps rest)"
      by (rule Cons.IH [OF next_eq sh' inv])
    finally show ?thesis using f by (simp add: headsIn_def runOf_def)
  qed
qed

lemma noVisited_shape: "shape10 noVisited"
  by (simp add: noVisited_def shape10_def)

lemma noVisited_cell: "inb r c \<Longrightarrow> \<not> cell noVisited r c"
proof -
  assume "inb r c"
  then have "nat r < 10" "nat c < 10" by (auto simp: inb_def)
  then show ?thesis by (simp add: noVisited_def cell_def)
qed

lemma extractedRuns_valid:
  assumes "validFleet ps" "encodes bd ps"
  shows "extractedRuns bd = map runOf (headsIn ps coords)"
  unfolding extractedRuns_def
  by (rule traceRuns_valid [OF assms, of "[]"]) (simp_all add: noVisited_shape noVisited_cell)

lemma mset_headsIn:
  "distinct todo \<Longrightarrow> mset (headsIn ps todo) = filter_mset (\<lambda>p. headOf p \<in> set todo) (mset ps)"
proof (induction todo)
  case Nil
  then show ?case by (simp add: headsIn_def)
next
  case (Cons x todo)
  then have ih: "mset (headsIn ps todo) = filter_mset (\<lambda>p. headOf p \<in> set todo) (mset ps)"
    and nx: "x \<notin> set todo" by simp_all
  have "mset (headsIn ps (x # todo)) =
          filter_mset (\<lambda>p. headOf p = x) (mset ps) + mset (headsIn ps todo)"
    by (simp add: headsIn_def)
  also have "\<dots> = filter_mset (\<lambda>p. headOf p \<in> set (x # todo)) (mset ps)"
    unfolding ih using nx by (intro multiset_eqI) auto
  finally show ?case .
qed

lemma mset_headsIn_coords:
  assumes vf: "validFleet ps"
  shows "mset (headsIn ps coords) = mset ps"
proof -
  have "\<forall>p \<in> set ps. headOf p \<in> set coords"
  proof
    fix p assume p: "p \<in> set ps"
    have "headOf p \<in> set (cellsOf p)"
      using validFleet_len [OF vf p] by (intro head_in_cells) simp
    then have "inb (fst (headOf p)) (snd (headOf p))"
      using validFleet_inb [OF vf p, of "fst (headOf p)" "snd (headOf p)"] by simp
    then show "headOf p \<in> set coords" by (simp add: set_coords)
  qed
  then have "filter_mset (\<lambda>p. headOf p \<in> set coords) (mset ps) = mset ps"
    by (intro multiset_eqI) auto
  then show ?thesis using mset_headsIn [OF distinct_coords, of ps] by simp
qed

lemma length_cellsOf: "length (cellsOf p) = p_len p"
  by (simp add: cellsOf_def)

lemma validFleet_length: "validFleet ps \<Longrightarrow> length ps = 5"
proof -
  assume "validFleet ps"
  then have "length (sort (map p_len ps)) = 5" by (simp add: validFleet_def)
  then show ?thesis by simp
qed

lemma sort_mset_cong: "mset xs = mset ys \<Longrightarrow> sort xs = sort (ys :: nat list)"
  by (metis sorted_list_of_multiset_mset)

lemma got_valid:
  assumes vf: "validFleet ps" and m: "mset L = mset ps"
  shows "got (map runShip (map runOf L)) = wanted"
proof -
  have e: "map ship_length (map runShip (map runOf L)) = map p_len L"
    by (simp add: runShip_def runOf_def length_cellsOf)
  have "mset (map p_len L) = mset (map p_len ps)" using m by (metis mset_map)
  then have "sort (map p_len L) = sort (map p_len ps)" by (rule sort_mset_cong)
  then have "sort (map ship_length (map runShip (map runOf L))) = sort (map p_len ps)"
    unfolding e .
  then show ?thesis using vf by (simp add: got_def wanted_def validFleet_def)
qed

lemma enumerate_map_snd:
  "enumerate n (map g xs) = map (\<lambda>(i, x). (i, g x)) (enumerate n xs)"
  by (induction xs arbitrary: n) simp_all

lemma renumber_valid:
  assumes vf: "validFleet ps" and m: "mset L = mset ps"
  shows "renumber (map runShip (map runOf L)) = expectedShips ps"
proof -
  let ?g = "\<lambda>p. runShip (runOf p)"
  have inj: "inj_on p_id (set ps)" using vf by (simp add: validFleet_def distinct_map)
  have sL: "set L = set ps" using m by (rule mset_eq_setD)
  have key: "\<And>p. ship_id (?g p) = p_id p" by (simp add: runShip_def runOf_def)
  have i1: "inj_on ship_id (set (map ?g L))"
    using inj sL by (auto simp: inj_on_def key)
  have s1: "sorted (map ship_id (map ?g (sort_key p_id L)))"
    by (simp add: key comp_def)
  have m1: "mset (map ?g L) = mset (map ?g (sort_key p_id L))" by simp
  have "sort_key ship_id (map ?g L) = map ?g (sort_key p_id L)"
    by (rule sort_key_inj_key_eq [OF m1 i1 s1])
  also have "sort_key p_id L = sort_key p_id ps"
    using m inj sL by (intro sort_key_eq_sort_key) simp_all
  finally have "sort_key ship_id (map runShip (map runOf L)) = map ?g (sort_key p_id ps)"
    by (simp add: comp_def)
  then show ?thesis
    by (simp add: renumber_def expectedShips_def enumerate_map_snd comp_def
        runShip_def runOf_def length_cellsOf case_prod_beta)
qed

lemma expectedShips_ids:
  "map ship_id (expectedShips ps) = map (\<lambda>k. int k + 1) [0..<length ps]"
proof -
  have "\<And>n (xs :: placed list). map fst (enumerate n xs) = [n..<n + length xs]"
    by (simp add: enumerate_eq_zip)
  from this [of 0 "sort_key p_id ps"]
  have e: "map fst (enumerate 0 (sort_key p_id ps)) = [0..<length ps]" by simp
  have "map (\<lambda>x. int (fst x) + 1) (enumerate 0 (sort_key p_id ps)) =
          map (\<lambda>k. int k + 1) (map fst (enumerate 0 (sort_key p_id ps)))"
    by (simp del: map_fst_enumerate)
  then have "map (\<lambda>x. int (fst x) + 1) (enumerate 0 (sort_key p_id ps)) =
          map (\<lambda>k. int k + 1) [0..<length ps]"
    unfolding e .
  then show ?thesis
    by (simp add: expectedShips_def comp_def case_prod_beta)
qed

lemma emptyBoard_shape: "shape10 emptyBoard"
  by (simp add: emptyBoard_def shape10_def)

lemma emptyBoard_cell: "inb r c \<Longrightarrow> cell emptyBoard r c = 0"
proof -
  assume "inb r c"
  then have "nat r < 10" "nat c < 10" by (auto simp: inb_def)
  then show ?thesis by (simp add: emptyBoard_def cell_def)
qed

lemma paintShip_cell:
  "shape10 b \<Longrightarrow> \<forall>rc \<in> set cs. inb (fst rc) (snd rc) \<Longrightarrow>
   shape10 (foldl (\<lambda>b rc. setCell b (fst rc) (snd rc) x) b cs) \<and>
   (\<forall>r c. inb r c \<longrightarrow> cell (foldl (\<lambda>b rc. setCell b (fst rc) (snd rc) x) b cs) r c =
      (if (r, c) \<in> set cs then x else cell b r c))"
proof (induction cs arbitrary: b)
  case Nil
  then show ?case by simp
next
  case (Cons rc cs)
  have sh: "shape10 (setCell b (fst rc) (snd rc) x)"
    using Cons.prems(1) by (rule shape10_setCell)
  have rest: "\<forall>rc \<in> set cs. inb (fst rc) (snd rc)" using Cons.prems(2) by simp
  have i0: "inb (fst rc) (snd rc)" using Cons.prems(2) by simp
  from Cons.IH [OF sh rest] show ?case
    using Cons.prems(1) i0
    by (cases rc) (auto simp: cell_setCell)
qed

lemma foldl_paintShip:
  assumes "shape10 b"
    and "\<forall>s \<in> set ss. \<forall>rc \<in> set (cells s). inb (fst rc) (snd rc)"
    and "distinct (concat (map cells ss))"
  shows "shape10 (foldl paintShip b ss) \<and>
     (\<forall>s \<in> set ss. \<forall>rc \<in> set (cells s). cell (foldl paintShip b ss) (fst rc) (snd rc) = ship_id s) \<and>
     (\<forall>r c. inb r c \<longrightarrow> (\<forall>s \<in> set ss. (r, c) \<notin> set (cells s)) \<longrightarrow>
        cell (foldl paintShip b ss) r c = cell b r c)"
  using assms
proof (induction ss arbitrary: b)
  case Nil
  then show ?case by simp
next
  case (Cons s0 ss)
  let ?b = "paintShip b s0"
  have in0: "\<forall>rc \<in> set (cells s0). inb (fst rc) (snd rc)" using Cons.prems(2) by simp
  from paintShip_cell [OF Cons.prems(1) in0, of "ship_id s0"]
  have sh: "shape10 ?b"
    and pc: "\<And>r c. inb r c \<Longrightarrow>
               cell ?b r c = (if (r, c) \<in> set (cells s0) then ship_id s0 else cell b r c)"
    by (simp_all add: paintShip_def)
  have rest: "\<forall>s \<in> set ss. \<forall>rc \<in> set (cells s). inb (fst rc) (snd rc)"
    using Cons.prems(2) by simp
  have d: "distinct (concat (map cells ss))"
    and disj: "\<forall>s \<in> set ss. set (cells s0) \<inter> set (cells s) = {}"
    using Cons.prems(3) by auto
  from Cons.IH [OF sh rest d]
  have ih1: "shape10 (foldl paintShip ?b ss)"
    and ih2: "\<And>s rc. s \<in> set ss \<Longrightarrow> rc \<in> set (cells s) \<Longrightarrow>
                cell (foldl paintShip ?b ss) (fst rc) (snd rc) = ship_id s"
    and ih3: "\<And>r c. inb r c \<Longrightarrow> \<forall>s \<in> set ss. (r, c) \<notin> set (cells s) \<Longrightarrow>
                cell (foldl paintShip ?b ss) r c = cell ?b r c"
    by blast+
  have a: "\<forall>rc \<in> set (cells s0). cell (foldl paintShip ?b ss) (fst rc) (snd rc) = ship_id s0"
  proof
    fix rc assume m: "rc \<in> set (cells s0)"
    then have i: "inb (fst rc) (snd rc)" using in0 by simp
    have "\<forall>s \<in> set ss. (fst rc, snd rc) \<notin> set (cells s)" using disj m by auto
    from ih3 [OF i this] show "cell (foldl paintShip ?b ss) (fst rc) (snd rc) = ship_id s0"
      using pc [OF i] m by simp
  qed
  have c: "\<forall>r c. inb r c \<longrightarrow> (\<forall>s \<in> set (s0 # ss). (r, c) \<notin> set (cells s)) \<longrightarrow>
        cell (foldl paintShip ?b ss) r c = cell b r c"
    using ih3 pc by simp
  show ?case using ih1 ih2 a c by simp
qed

lemma distinct_cellsOf: "distinct (cellsOf p)"
  by (simp add: cellsOf_def distinct_map inj_on_def)

lemma distinct_fleet_cells:
  assumes vf: "validFleet ps"
  shows "distinct L \<Longrightarrow> set L \<subseteq> set ps \<Longrightarrow> distinct (concat (map cellsOf L))"
proof (induction L)
  case Nil
  then show ?case by simp
next
  case (Cons a L)
  have "\<forall>q \<in> set L. set (cellsOf a) \<inter> set (cellsOf q) = {}"
  proof
    fix q assume q: "q \<in> set L"
    show "set (cellsOf a) \<inter> set (cellsOf q) = {}"
    proof (rule ccontr)
      assume "set (cellsOf a) \<inter> set (cellsOf q) \<noteq> {}"
      then obtain x where "x \<in> set (cellsOf a)" "x \<in> set (cellsOf q)" by auto
      then have "a = q" using validFleet_same [OF vf, of a q x] Cons.prems(2) q by auto
      then show False using Cons.prems(1) q by simp
    qed
  qed
  then show ?case using Cons distinct_cellsOf by auto
qed

lemma map_snd_enumerate_comp:
  "map (\<lambda>x. f (snd x)) (enumerate n xs) = map f xs"
  by (induction xs arbitrary: n) simp_all

lemma expectedShips_cells:
  "map cells (expectedShips ps) = map cellsOf (sort_key p_id ps)"
  by (simp add: expectedShips_def comp_def case_prod_beta map_snd_enumerate_comp)

lemma encodes_validBoard:
  assumes vf: "validFleet ps" and en: "encodes bd ps"
  shows "validBoard bd"
proof -
  have sh: "shape10 bd" using en by (simp add: encodes_def)
  have nonneg: "\<And>rc. 0 \<le> idAt ps rc"
  proof -
    fix rc
    show "0 \<le> idAt ps rc"
    proof (cases "idAt ps rc = 0")
      case False
      from idAt_nonzero [OF this] vf show ?thesis by (auto simp: validFleet_def)
    qed simp
  qed
  have "\<forall>row \<in> set bd. \<forall>v \<in> set row. \<not> v < 0"
  proof (intro ballI)
    fix row v assume row: "row \<in> set bd" and v: "v \<in> set row"
    obtain i where i: "i < length bd" "row = bd ! i"
      using row by (auto simp: in_set_conv_nth)
    obtain j where j: "j < length row" "v = row ! j"
      using v by (auto simp: in_set_conv_nth)
    have "length row = 10" "length bd = 10" using sh row by (auto simp: shape10_def)
    then have "inb (int i) (int j)" using i j by (simp add: inb_def)
    from encodes_cell [OF en this] have "v = idAt ps (int i, int j)"
      using i j by (simp add: cell_def)
    then show "\<not> v < 0" using nonneg [of "(int i, int j)"] by simp
  qed
  then show ?thesis using sh by (auto simp: validBoard_def shape10_def)
qed

text \<open>
  C2: a grid that encodes a valid placement is accepted. The fleet returned is the
  placement's ships by ascending identifier of the submission, under the identifiers
  1, 2, 3, 4, 5, each with its cells; the board returned is 10 by 10, holds a ship's
  new identifier exactly on that ship's cells, and 0 on every cell of no ship.
\<close>

theorem C2_sanitizeFleet_valid:
  assumes vf: "validFleet ps" and en: "encodes bd ps"
  shows "\<exists>nb shs. sanitizeFleet (Some bd) = Some (nb, shs) \<and>
           shs = expectedShips ps \<and> map ship_id shs = [1, 2, 3, 4, 5] \<and> shape10 nb \<and>
           (\<forall>s \<in> set shs. \<forall>r c. inb r c \<longrightarrow>
              (cell nb r c = ship_id s) = ((r, c) \<in> set (cells s))) \<and>
           (\<forall>r c. inb r c \<longrightarrow> (\<forall>s \<in> set shs. (r, c) \<notin> set (cells s)) \<longrightarrow>
              cell nb r c = EMPTY)"
proof -
  let ?L = "headsIn ps coords"
  let ?shs = "expectedShips ps"
  let ?nb = "normBoard ?shs"
  have vb: "validBoard bd" using vf en by (rule encodes_validBoard)
  have runs: "extractedRuns bd = map runOf ?L" using vf en by (rule extractedRuns_valid)
  have mL: "mset ?L = mset ps" using vf by (rule mset_headsIn_coords)
  then have sL: "set ?L = set ps" by (rule mset_eq_setD)
  have nobr: "\<not> (\<exists>run \<in> set (extractedRuns bd). branches bd (fst run) (snd run))"
    using not_branches [OF vf en] sL by (auto simp: runs runOf_def)
  have ex: "extractShips bd = Some (map runShip (map runOf ?L))"
    using nobr by (simp add: extractShips_trace runs)
  have san: "sanitizeFleet (Some bd) = Some (?nb, ?shs)"
    using vb ex got_valid [OF vf mL] renumber_valid [OF vf mL]
    by (simp add: sanitizeFleet_def)
  have ids: "map ship_id ?shs = [1, 2, 3, 4, 5]"
  proof -
    have "[0..<5] = [0, 1, 2, 3, 4]" by code_simp
    then show ?thesis by (simp add: expectedShips_ids validFleet_length [OF vf])
  qed
  have cs: "map cells ?shs = map cellsOf (sort_key p_id ps)" by (rule expectedShips_cells)
  have dps: "distinct ps" using vf by (auto simp: validFleet_def distinct_map)
  have inbs: "\<forall>s \<in> set ?shs. \<forall>rc \<in> set (cells s). inb (fst rc) (snd rc)"
  proof
    fix s assume "s \<in> set ?shs"
    then have "cells s \<in> set (map cells ?shs)" by simp
    then obtain p where p: "p \<in> set ps" "cells s = cellsOf p" unfolding cs by auto
    show "\<forall>rc \<in> set (cells s). inb (fst rc) (snd rc)"
      using validFleet_inb [OF vf p(1)] p(2) by auto
  qed
  have dis: "distinct (concat (map cells ?shs))"
    unfolding cs using distinct_fleet_cells [OF vf, of "sort_key p_id ps"] dps by simp
  from foldl_paintShip [OF emptyBoard_shape inbs dis]
  have sh: "shape10 ?nb"
    and on: "\<And>s rc. s \<in> set ?shs \<Longrightarrow> rc \<in> set (cells s) \<Longrightarrow>
               cell ?nb (fst rc) (snd rc) = ship_id s"
    and off: "\<And>r c. inb r c \<Longrightarrow> \<forall>s \<in> set ?shs. (r, c) \<notin> set (cells s) \<Longrightarrow>
               cell ?nb r c = 0"
    unfolding normBoard_def by (auto simp: emptyBoard_cell)
  have dids: "distinct (map ship_id ?shs)" unfolding ids by simp
  have pos: "\<forall>s \<in> set ?shs. ship_id s \<noteq> 0"
  proof
    fix s assume "s \<in> set ?shs"
    then have "ship_id s \<in> set (map ship_id ?shs)" by simp
    then show "ship_id s \<noteq> 0" unfolding ids by auto
  qed
  have iff: "\<forall>s \<in> set ?shs. \<forall>r c. inb r c \<longrightarrow>
              (cell ?nb r c = ship_id s) = ((r, c) \<in> set (cells s))"
  proof (intro ballI allI impI)
    fix s r c assume s: "s \<in> set ?shs" and i: "inb r c"
    show "(cell ?nb r c = ship_id s) = ((r, c) \<in> set (cells s))"
    proof
      assume eq: "cell ?nb r c = ship_id s"
      have "\<not> (\<forall>s' \<in> set ?shs. (r, c) \<notin> set (cells s'))"
        using off [OF i] eq pos s by auto
      then obtain s' where s': "s' \<in> set ?shs" "(r, c) \<in> set (cells s')" by blast
      from on [OF this] have "ship_id s' = ship_id s" using eq by simp
      then have "s' = s" using dids s s'(1) by (auto simp: distinct_map dest: inj_onD)
      then show "(r, c) \<in> set (cells s)" using s'(2) by simp
    next
      assume "(r, c) \<in> set (cells s)"
      from on [OF s this] show "cell ?nb r c = ship_id s" by simp
    qed
  qed
  have off': "\<forall>r c. inb r c \<longrightarrow> (\<forall>s \<in> set ?shs. (r, c) \<notin> set (cells s)) \<longrightarrow>
              cell ?nb r c = 0"
    using off by blast
  show ?thesis
    apply (rule exI [of _ ?nb])
    apply (rule exI [of _ ?shs])
    using san ids sh iff off' apply simp
    done
qed

theorem C2_sanitizeFleet_valid_witness:
  "validFleet placementW \<and> encodes boardW placementW \<and>
   map_option snd (sanitizeFleet (Some boardW)) = Some (expectedShips placementW) \<and>
   map ship_id (expectedShips placementW) = [1, 2, 3, 4, 5] \<and>
   map cells (expectedShips placementW) =
     [[(2, 9), (3, 9), (4, 9), (5, 9)], [(4, 4), (5, 4), (6, 4)],
      [(0, 0), (0, 1), (0, 2), (0, 3), (0, 4)], [(9, 0), (9, 1)], [(2, 0), (2, 1), (2, 2)]]"
proof -
  have v: "validFleet placementW" by code_simp
  have e: "encodes boardW placementW" by code_simp
  have c: "map cells (expectedShips placementW) =
     [[(2, 9), (3, 9), (4, 9), (5, 9)], [(4, 4), (5, 4), (6, 4)],
      [(0, 0), (0, 1), (0, 2), (0, 3), (0, 4)], [(9, 0), (9, 1)], [(2, 0), (2, 1), (2, 2)]]"
    by code_simp
  from C2_sanitizeFleet_valid [OF v e] v e c show ?thesis by auto
qed

text \<open>
  C3: on a 10 by 10 grid of non-negative integers, when a run that the scan extracts has
  a cell with an orthogonal neighbour inside the board that carries the run's identifier
  and is not a cell of the run, the submission is rejected.
\<close>

theorem C3_branch_rejected:
  assumes "validBoard bd"
    and "(i, run) \<in> set (extractedRuns bd)"
    and "rc \<in> set run" and "n \<in> set (nbrs rc)"
    and "inb (fst n) (snd n)" and "cell bd (fst n) (snd n) = i" and "n \<notin> set run"
  shows "sanitizeFleet (Some bd) = None"
proof -
  have "branches bd i run" using assms(3-7) unfolding branches_def by blast
  then have "\<exists>x \<in> set (extractedRuns bd). branches bd (fst x) (snd x)"
    using assms(2) by (intro bexI [of _ "(i, run)"]) simp_all
  then have "extractShips bd = None"
    by (simp add: extractShips_trace)
  then show ?thesis by (simp add: sanitizeFleet_def)
qed

theorem C3_branch_rejected_witness:
  "validBoard boardL \<and> (1, [(0, 0), (0, 1), (0, 2)]) \<in> set (extractedRuns boardL) \<and>
   (0, 0) \<in> set ([(0, 0), (0, 1), (0, 2)] :: coord list) \<and> (1, 0) \<in> set (nbrs (0, 0)) \<and>
   inb 1 0 \<and> cell boardL 1 0 = 1 \<and> (1, 0) \<notin> set ([(0, 0), (0, 1), (0, 2)] :: coord list) \<and>
   sanitizeFleet (Some boardL) = None"
proof -
  have a: "validBoard boardL" by code_simp
  have b: "(1, [(0, 0), (0, 1), (0, 2)]) \<in> set (extractedRuns boardL)" by code_simp
  have c: "(0, 0) \<in> set ([(0, 0), (0, 1), (0, 2)] :: coord list)" by simp
  have d: "(1, 0) \<in> set (nbrs (0, 0))" by (simp add: nbrs_def)
  have e: "inb (fst (1 :: int, 0 :: int)) (snd (1 :: int, 0 :: int))" by (simp add: inb_def)
  have f: "cell boardL (fst (1 :: int, 0 :: int)) (snd (1 :: int, 0 :: int)) = 1" by code_simp
  have g: "(1, 0) \<notin> set ([(0, 0), (0, 1), (0, 2)] :: coord list)" by simp
  from C3_branch_rejected [OF a b c d e f g] a b c d e f g show ?thesis by simp
qed

lemma renumber_nth:
  "k < length shs \<Longrightarrow>
   renumber shs ! k = (sort_key ship_id shs ! k)\<lparr>ship_id := int k + 1\<rparr>"
  by (simp add: renumber_def nth_enumerate_eq)

lemma length_renumber: "length (renumber shs) = length shs"
  by (simp add: renumber_def)

lemma renumber_two:
  assumes "s1 \<in> set shs" "s2 \<in> set shs" "cells s1 \<noteq> cells s2"
  shows "\<exists>t1 \<in> set (renumber shs). \<exists>t2 \<in> set (renumber shs).
           cells t1 = cells s1 \<and> cells t2 = cells s2 \<and> ship_id t1 \<noteq> ship_id t2"
proof -
  let ?S = "sort_key ship_id shs"
  have m: "s1 \<in> set ?S" "s2 \<in> set ?S" using assms by simp_all
  obtain k1 where k1: "k1 < length ?S" "?S ! k1 = s1"
    using m(1) unfolding in_set_conv_nth by blast
  obtain k2 where k2: "k2 < length ?S" "?S ! k2 = s2"
    using m(2) unfolding in_set_conv_nth by blast
  note k = k1 k2
  have ne: "k1 \<noteq> k2" using assms(3) k by auto
  let ?t1 = "renumber shs ! k1" and ?t2 = "renumber shs ! k2"
  have "?t1 \<in> set (renumber shs)" "?t2 \<in> set (renumber shs)"
    using k by (simp_all add: length_renumber)
  moreover have "cells ?t1 = cells s1" "cells ?t2 = cells s2" "ship_id ?t1 \<noteq> ship_id ?t2"
    using k ne by (simp_all add: renumber_nth)
  ultimately show ?thesis by blast
qed

text \<open>
  C4, as stated, fails: the sanitizer compares run lengths only and never looks for a
  repeated identifier. On \<open>boardDup\<close> the identifier 3 occurs as two separate runs of
  three cells; with the runs of 5, 4 and 2 cells the lengths are 5, 4, 3, 3, 2 and the
  submission is accepted.
\<close>

theorem C4_duplicate_id_counterexample:
  "validBoard boardDup \<and>
   (3, [(4, 0), (4, 1), (4, 2)]) \<in> set (extractedRuns boardDup) \<and>
   (3, [(6, 0), (6, 1), (6, 2)]) \<in> set (extractedRuns boardDup) \<and>
   sanitizeFleet (Some boardDup) \<noteq> None"
  by code_simp

text \<open>
  C4, amended: a 10 by 10 grid of non-negative integers on which one identifier is read
  for two different runs is rejected exactly when some extracted run fails the branch
  check or the lengths of all extracted runs, each run counted as a ship of its own, are
  not 5, 4, 3, 3, 2. When it is accepted, the two runs are two ships of the returned
  fleet, under different identifiers.
\<close>

theorem C4_duplicate_id_runs:
  assumes "validBoard bd"
    and "(i, run1) \<in> set (extractedRuns bd)"
    and "(i, run2) \<in> set (extractedRuns bd)"
    and "run1 \<noteq> run2"
  shows "(sanitizeFleet (Some bd) = None) =
           ((\<exists>run \<in> set (extractedRuns bd). branches bd (fst run) (snd run)) \<or>
            rev (sort (map (\<lambda>run. length (snd run)) (extractedRuns bd))) \<noteq> [5, 4, 3, 3, 2])
         \<and> (\<forall>nb shs. sanitizeFleet (Some bd) = Some (nb, shs) \<longrightarrow>
              (\<exists>s1 \<in> set shs. \<exists>s2 \<in> set shs.
                 cells s1 = run1 \<and> cells s2 = run2 \<and> ship_id s1 \<noteq> ship_id s2))"
proof -
  let ?runs = "extractedRuns bd"
  have w: "wanted = [5, 4, 3, 3, 2]" by code_simp
  have g: "got (map runShip ?runs) = rev (sort (map (\<lambda>run. length (snd run)) ?runs))"
    by (simp add: got_def runShip_def comp_def)
  have first: "(sanitizeFleet (Some bd) = None) =
           ((\<exists>run \<in> set ?runs. branches bd (fst run) (snd run)) \<or>
            rev (sort (map (\<lambda>run. length (snd run)) ?runs)) \<noteq> [5, 4, 3, 3, 2])"
    using assms(1) by (simp add: sanitizeFleet_def extractShips_trace g w)
  have second: "\<forall>nb shs. sanitizeFleet (Some bd) = Some (nb, shs) \<longrightarrow>
              (\<exists>s1 \<in> set shs. \<exists>s2 \<in> set shs.
                 cells s1 = run1 \<and> cells s2 = run2 \<and> ship_id s1 \<noteq> ship_id s2)"
  proof (intro allI impI)
    fix nb shs assume "sanitizeFleet (Some bd) = Some (nb, shs)"
    then have s: "shs = renumber (map runShip ?runs)"
      using assms(1)
      by (auto simp: sanitizeFleet_def extractShips_trace split: if_splits)
    have "runShip (i, run1) \<in> set (map runShip ?runs)" "runShip (i, run2) \<in> set (map runShip ?runs)"
      using assms(2,3) by auto
    moreover have "cells (runShip (i, run1)) \<noteq> cells (runShip (i, run2))"
      using assms(4) by (simp add: runShip_def)
    ultimately show "\<exists>s1 \<in> set shs. \<exists>s2 \<in> set shs.
                 cells s1 = run1 \<and> cells s2 = run2 \<and> ship_id s1 \<noteq> ship_id s2"
      unfolding s using renumber_two [of "runShip (i, run1)" "map runShip ?runs" "runShip (i, run2)"]
      by (simp add: runShip_def)
  qed
  from first second show ?thesis by blast
qed

theorem C4_duplicate_id_runs_witness:
  "validBoard boardSix \<and>
   (5, [(8, 0), (8, 1)]) \<in> set (extractedRuns boardSix) \<and>
   (5, [(8, 4), (8, 5)]) \<in> set (extractedRuns boardSix) \<and>
   ([(8, 0), (8, 1)] :: coord list) \<noteq> [(8, 4), (8, 5)] \<and>
   rev (sort (map (\<lambda>run. length (snd run)) (extractedRuns boardSix))) = [5, 4, 3, 3, 2, 2] \<and>
   sanitizeFleet (Some boardSix) = None"
proof -
  have a: "validBoard boardSix" by code_simp
  have b: "(5, [(8, 0), (8, 1)]) \<in> set (extractedRuns boardSix)" by code_simp
  have c: "(5, [(8, 4), (8, 5)]) \<in> set (extractedRuns boardSix)" by code_simp
  have d: "([(8, 0), (8, 1)] :: coord list) \<noteq> [(8, 4), (8, 5)]" by simp
  have e: "rev (sort (map (\<lambda>run. length (snd run)) (extractedRuns boardSix))) = [5, 4, 3, 3, 2, 2]"
    by code_simp
  from C4_duplicate_id_runs [OF a b c d] e have "sanitizeFleet (Some boardSix) = None"
    by simp
  with a b c d e show ?thesis by simp
qed

lemma turnWinnerOk_players: "turnWinnerOk (rm\<lparr>players := ps\<rparr>) = turnWinnerOk rm"
  by (simp add: turnWinnerOk_def)

lemma createRoom_ok:
  "allRoomsOk srv \<Longrightarrow> allRoomsOk (fst (createRoom e wid srv))"
  by (auto simp: allRoomsOk_def createRoom_def Let_def newRoom_def turnWinnerOk_def)

lemma joinRoom_ok:
  "allRoomsOk srv \<Longrightarrow> allRoomsOk (fst (joinRoom e wid ws srv mc))"
  by (auto simp: allRoomsOk_def joinRoom_def Let_def turnWinnerOk_players
      split: option.splits if_splits)

lemma getRoom_Some:
  "getRoom ws srv = Some rm \<Longrightarrow> rooms srv (propKey (ws_room ws)) = Some rm"
  by (auto simp: getRoom_def propKey_def split: option.splits if_splits)

lemma placeFleet_ok:
  assumes "allRoomsOk srv"
  shows "allRoomsOk (fst (placeFleet e wid ws srv payload rdy))"
proof (cases "getRoom ws srv")
  case None
  then show ?thesis using assms by (simp add: placeFleet_def)
next
  case (Some rm)
  then have ok: "turnWinnerOk rm"
    using assms getRoom_Some [OF Some] by (auto simp: allRoomsOk_def)
  have st: "\<And>k p cl. phase rm = Placing \<Longrightarrow> turnWinnerOk (storeFleet rm k p cl rdy)"
    using ok by (simp add: turnWinnerOk_players storeFleet_def)
  have sb: "\<And>k p cl. phase rm = Placing \<Longrightarrow> turnWinnerOk (startBattle e (storeFleet rm k p cl rdy))"
    using ok by (simp add: turnWinnerOk_def storeFleet_def startBattle_def)
  show ?thesis
    using assms Some st sb
    by (auto simp: placeFleet_def Let_def allRoomsOk_def split: option.splits if_splits)
qed

lemma fireRoom_ok:
  assumes "turnWinnerOk rm" and "fireRoom rm pid r0 c0 = Inr (Some rm')"
  shows "turnWinnerOk rm'"
proof -
  have b: "phase rm = Battle" "turn rm = pid"
    using assms(2) by (auto simp: fireRoom_def split: if_splits)
  then have "pid \<noteq> None" "winner rm = None"
    using assms(1) by (auto simp: turnWinnerOk_def)
  then show ?thesis
    using assms(2) b
    by (auto simp: fireRoom_def Let_def turnWinnerOk_def
        split: if_splits option.splits)
qed

lemma fire_ok:
  assumes "allRoomsOk srv" and "fire wid ws srv r0 c0 = Inr (srv', outs)"
  shows "allRoomsOk srv'"
proof (cases "getRoom ws srv")
  case None
  then show ?thesis using assms by (simp add: fire_def)
next
  case (Some rm)
  then have ok: "turnWinnerOk rm"
    using assms(1) getRoom_Some [OF Some] by (auto simp: allRoomsOk_def)
  show ?thesis
  proof (cases "fireRoom rm (ws_playerId ws) r0 c0")
    case (Inl x)
    then show ?thesis using assms(2) Some by (simp add: fire_def)
  next
    case (Inr res)
    show ?thesis
    proof (cases res)
      case None
      then show ?thesis using assms Some Inr by (simp add: fire_def)
    next
      case (Some rm')
      then have "turnWinnerOk rm'" using fireRoom_ok [OF ok] Inr by simp
      then show ?thesis
        using assms \<open>getRoom ws srv = Some rm\<close> Inr Some
        by (auto simp: fire_def Let_def allRoomsOk_def split: if_splits)
    qed
  qed
qed

lemma requestState_ok:
  "allRoomsOk srv \<Longrightarrow> allRoomsOk (fst (requestState wid ws srv))"
  by (auto simp: requestState_def split: option.splits)

lemma allRoomsOk_clients: "allRoomsOk (srv\<lparr>clients := cl\<rparr>) = allRoomsOk srv"
  by (simp add: allRoomsOk_def)

lemma handle_ok:
  assumes "allRoomsOk srv" and "handle e wid ws srv m = Inr (srv', outs)"
  shows "allRoomsOk srv'"
proof (cases m)
  case CREATE_ROOM
  then show ?thesis using assms createRoom_ok [OF assms(1), of e wid] by auto
next
  case (JOIN_ROOM mc)
  then show ?thesis using assms joinRoom_ok [OF assms(1), of e wid ws mc] by auto
next
  case (PLACE_FLEET payload rdy)
  then show ?thesis using assms placeFleet_ok [OF assms(1), of e wid ws payload rdy] by auto
next
  case (FIRE r c)
  then show ?thesis using assms fire_ok [OF assms(1), of wid ws r c srv' outs] by simp
next
  case REQUEST_STATE
  then show ?thesis using assms requestState_ok [OF assms(1), of wid ws] by auto
next
  case UNKNOWN_TYPE
  then show ?thesis using assms by simp
next
  case JOIN_ROOM_CODE_NOT_STRING
  then show ?thesis using assms by simp
next
  case JSON_NULL
  then show ?thesis using assms by simp
qed

lemma step_ok:
  assumes "allRoomsOk srv" and "step e ev srv = Inr (srv', outs)"
  shows "allRoomsOk srv'"
proof (cases ev)
  case (Connection wid)
  then show ?thesis using assms
    by (auto simp: onConnection_def allRoomsOk_def split: if_splits)
next
  case (Message wid raw)
  show ?thesis
  proof (cases "map_of (clients srv) wid")
    case None
    then show ?thesis using assms Message by (simp add: onMessage_def)
  next
    case (Some ws)
    let ?ws1 = "ws\<lparr>ws_okRate := snd (ok (now e) (ws_okRate ws))\<rparr>"
    let ?srv1 = "srv\<lparr>clients := AList.update wid ?ws1 (clients srv)\<rparr>"
    have ok1: "allRoomsOk ?srv1" using assms(1) by (simp add: allRoomsOk_clients)
    show ?thesis
    proof (cases "fst (ok (now e) (ws_okRate ws)) \<and> raw \<noteq> None")
      case True
      then obtain m where m: "raw = Some m" by auto
      have "handle e wid ?ws1 ?srv1 m = Inr (srv', outs)"
        using assms(2) Message Some True m by (simp add: onMessage_def Let_def)
      from handle_ok [OF ok1 this] show ?thesis .
    next
      case False
      then have "srv' = ?srv1"
        using assms(2) Message Some by (auto simp: onMessage_def Let_def split: option.splits)
      then show ?thesis using ok1 by simp
    qed
  qed
next
  case (Close wid)
  then show ?thesis using assms
    by (auto simp: onClose_def cleanupRooms_def allRoomsOk_def split: if_splits)
qed

lemma reachable_ok: "reachable srv \<Longrightarrow> allRoomsOk srv"
proof (induction rule: reachable.induct)
  case reach_start
  then show ?case by (simp add: allRoomsOk_def server0_def)
next
  case (reach_step srv e ev srv' outs)
  then show ?case using step_ok by blast
qed

lemma runEvents_reachable:
  "reachable srv \<Longrightarrow> runEvents evs srv = Inr srv' \<Longrightarrow> reachable srv'"
proof (induction evs arbitrary: srv)
  case Nil
  then show ?case by simp
next
  case (Cons x evs)
  then obtain res where r: "step (fst x) (snd x) srv = Inr res" "runEvents evs (fst res) = Inr srv'"
    by (auto split: sum.splits)
  have "reachable (fst res)"
    using Cons.prems(1) r(1) reachable.reach_step [of srv "fst x" "snd x" "fst res" "snd res"]
    by simp
  from Cons.IH [OF this r(2)] show ?case .
qed

lemma roomAfter_reachable:
  "roomAfter evs code = Some rm \<Longrightarrow> \<exists>srv. reachable srv \<and> rooms srv code = Some rm"
  using runEvents_reachable [OF reachable.reach_start, of evs]
  by (auto simp: roomAfter_def split: sum.splits)

lemma cell_setCell_cases:
  assumes "shape10 g" "inb r c"
  shows "cell (setCell g r' c' v) r c = v \<or> cell (setCell g r' c' v) r c = cell g r c"
proof -
  have "nat r < length g" using assms by (auto simp: shape10_def inb_def)
  moreover from this have "nat c < length (g ! nat r)"
    using assms by (auto simp: shape10_def inb_def)
  ultimately show ?thesis
    unfolding setCell_def cell_def
    by (cases "nat r' = nat r"; cases "nat c' = nat c")
       (auto simp: nth_list_update split: if_splits)
qed

lemma paintShip_shape: "shape10 b \<Longrightarrow> shape10 (paintShip b s)"
proof -
  have "\<And>b. shape10 b \<Longrightarrow> shape10 (foldl (\<lambda>b rc. setCell b (fst rc) (snd rc) (ship_id s)) b cs)" for cs
    by (induction cs) (simp_all add: shape10_setCell)
  then show "shape10 b \<Longrightarrow> shape10 (paintShip b s)" by (simp add: paintShip_def)
qed

lemma paintShip_cases:
  assumes "shape10 b" "inb r c"
  shows "cell (paintShip b s) r c = ship_id s \<or> cell (paintShip b s) r c = cell b r c"
proof -
  have "\<And>b. shape10 b \<Longrightarrow>
          cell (foldl (\<lambda>b rc. setCell b (fst rc) (snd rc) (ship_id s)) b cs) r c = ship_id s \<or>
          cell (foldl (\<lambda>b rc. setCell b (fst rc) (snd rc) (ship_id s)) b cs) r c = cell b r c" for cs
  proof (induction cs)
    case Nil
    then show ?case by simp
  next
    case (Cons x cs)
    have sh: "shape10 (setCell b (fst x) (snd x) (ship_id s))"
      using Cons.prems by (rule shape10_setCell)
    from Cons.IH [OF sh] cell_setCell_cases [OF Cons.prems assms(2), of "fst x" "snd x" "ship_id s"]
    show ?case by auto
  qed
  then show ?thesis using assms(1) by (simp add: paintShip_def)
qed

lemma foldl_paintShip_any:
  assumes "shape10 b" "inb r c"
  shows "shape10 (foldl paintShip b ss) \<and>
         (cell (foldl paintShip b ss) r c = cell b r c \<or>
          cell (foldl paintShip b ss) r c \<in> ship_id ` set ss)"
  using assms(1)
proof (induction ss arbitrary: b)
  case Nil
  then show ?case by simp
next
  case (Cons s ss)
  have sh: "shape10 (paintShip b s)" using Cons.prems by (rule paintShip_shape)
  from Cons.IH [OF sh] paintShip_cases [OF Cons.prems assms(2), of s]
  show ?case by auto
qed

lemma sanitizeFleet_playerOk:
  assumes "sanitizeFleet payload = Some clean" "shape10 (marks p)"
  shows "playerOk (p\<lparr>board := fst clean, ships := snd clean, ready := rdy\<rparr>)"
proof -
  obtain ss where c: "clean = (normBoard ss, ss)"
    using assms(1) by (auto simp: sanitizeFleet_def split: option.splits if_splits)
  have "\<forall>rc \<in> set coords. cell (normBoard ss) (fst rc) (snd rc) = 0 \<or>
          cell (normBoard ss) (fst rc) (snd rc) \<in> ship_id ` set ss"
  proof
    fix rc assume "rc \<in> set coords"
    then have i: "inb (fst rc) (snd rc)" by (simp add: set_coords)
    from foldl_paintShip_any [OF emptyBoard_shape i, of ss] emptyBoard_cell [OF i]
    show "cell (normBoard ss) (fst rc) (snd rc) = 0 \<or>
          cell (normBoard ss) (fst rc) (snd rc) \<in> ship_id ` set ss"
      by (auto simp: normBoard_def)
  qed
  moreover have "shape10 (normBoard ss)"
    using foldl_paintShip_any [OF emptyBoard_shape, of 0 0 ss] by (simp add: normBoard_def inb_def)
  ultimately show ?thesis using assms(2) by (simp add: playerOk_def c)
qed

lemma hitShip_ids: "map ship_id (hitShip i k ss) = map ship_id ss"
  by (induction ss) auto

lemma newPlayer_ok: "playerOk (newPlayer k)"
  by (auto simp: playerOk_def newPlayer_def emptyBoard_shape emptyBoard_cell set_coords)

lemma set_update_subset: "set (AList.update k v al) \<subseteq> insert (k, v) (set al)"
  by (induction al) auto

lemma set_map_entry:
  "kp \<in> set (AList.map_entry k f al) \<Longrightarrow> kp \<in> set al \<or> (\<exists>v. (k, v) \<in> set al \<and> kp = (k, f v))"
  by (induction al) (auto split: if_splits)

lemma clamp_inb: "inb (clamp x 0 9) (clamp y 0 9)"
  by (auto simp: clamp_def inb_def)

lemma playerOf_mem: "playerOf rm k = Some p \<Longrightarrow> (propKey k, p) \<in> set (players rm)"
  by (simp add: playerOf_def map_of_SomeD)

lemma otherPlayerId_key:
  "otherPlayerId rm pid = Some i \<Longrightarrow> i \<in> fst ` set (players rm)"
  by (auto simp: otherPlayerId_def find_Some_iff split: option.splits if_splits)

lemma update_players_ok:
  assumes "roomPlayersOk rm" and "playerOk p"
  shows "roomPlayersOk (rm\<lparr>players := AList.update k p (players rm)\<rparr>)"
proof -
  have "distinct (map fst (AList.update k p (players rm)))"
    using assms(1) by (simp add: roomPlayersOk_def distinct_update)
  moreover have "\<forall>kp \<in> set (AList.update k p (players rm)). playerOk (snd kp)"
    using assms set_update_subset [of k p "players rm"]
    by (fastforce simp: roomPlayersOk_def)
  ultimately show ?thesis by (simp add: roomPlayersOk_def)
qed

lemma fireRoom_players_ok:
  assumes "roomPlayersOk rm" and "fireRoom rm pid r0 c0 = Inr (Some rm')"
  shows "roomPlayersOk rm'"
proof -
  let ?r = "clamp (toInt32 r0) 0 9" and ?c = "clamp (toInt32 c0) 0 9"
  obtain me oppId opp where
    me: "playerOf rm pid = Some me" and
    oi: "otherPlayerId rm pid = Some oppId" and
    op: "map_of (players rm) oppId = Some opp"
    using assms(2) by (auto simp: fireRoom_def Let_def split: if_splits option.splits)
  have mok: "playerOk me" using assms(1) playerOf_mem [OF me] by (auto simp: roomPlayersOk_def)
  have m3: "\<And>v. playerOk (me\<lparr>marks := setCell (marks me) ?r ?c v\<rparr>)"
    using mok by (simp add: playerOk_def shape10_setCell)
  have upd: "\<And>v. roomPlayersOk (rm\<lparr>players := AList.update (propKey pid)
                 (me\<lparr>marks := setCell (marks me) ?r ?c v\<rparr>) (players rm)\<rparr>)"
    using assms(1) m3 by (rule update_players_ok)
  have hit: "\<And>q i k. playerOk q \<Longrightarrow> playerOk (q\<lparr>ships := hitShip i k (ships q)\<rparr>)"
  proof -
    fix q i k assume "playerOk q"
    moreover have "ship_id ` set (hitShip i k (ships q)) = ship_id ` set (ships q)"
      using hitShip_ids [of i k "ships q"] by (metis set_map)
    ultimately show "playerOk (q\<lparr>ships := hitShip i k (ships q)\<rparr>)"
      by (simp add: playerOk_def)
  qed
  have ent: "\<And>v i k. roomPlayersOk (rm\<lparr>players := AList.map_entry oppId
                 (\<lambda>q. q\<lparr>ships := hitShip i k (ships q)\<rparr>)
                 (AList.update (propKey pid) (me\<lparr>marks := setCell (marks me) ?r ?c v\<rparr>)
                    (players rm))\<rparr>)"
  proof -
    fix v i k
    let ?al = "AList.update (propKey pid) (me\<lparr>marks := setCell (marks me) ?r ?c v\<rparr>)
                    (players rm)"
    have d: "distinct (map fst (AList.map_entry oppId
                 (\<lambda>q. q\<lparr>ships := hitShip i k (ships q)\<rparr>) ?al))"
      using upd [of v] by (simp add: roomPlayersOk_def distinct_map_entry)
    have "\<forall>kp \<in> set (AList.map_entry oppId
                 (\<lambda>q. q\<lparr>ships := hitShip i k (ships q)\<rparr>) ?al). playerOk (snd kp)"
    proof
      fix kp
      assume "kp \<in> set (AList.map_entry oppId (\<lambda>q. q\<lparr>ships := hitShip i k (ships q)\<rparr>) ?al)"
      from set_map_entry [OF this]
      consider "kp \<in> set ?al"
        | q where "(oppId, q) \<in> set ?al" "kp = (oppId, q\<lparr>ships := hitShip i k (ships q)\<rparr>)"
        by blast
      then show "playerOk (snd kp)"
      proof cases
        case 1
        then show ?thesis using upd [of v] by (simp add: roomPlayersOk_def)
      next
        case 2
        then have "playerOk q" using upd [of v] by (force simp: roomPlayersOk_def)
        then show ?thesis using hit 2 by simp
      qed
    qed
    with d show "roomPlayersOk (rm\<lparr>players := AList.map_entry oppId
                 (\<lambda>q. q\<lparr>ships := hitShip i k (ships q)\<rparr>)
                 (AList.update (propKey pid) (me\<lparr>marks := setCell (marks me) ?r ?c v\<rparr>)
                    (players rm))\<rparr>)"
      by (simp add: roomPlayersOk_def)
  qed
  have pl: "roomPlayersOk (rm''\<lparr>phase := ph, winner := w\<rparr>) = roomPlayersOk rm''"
    "roomPlayersOk (rm''\<lparr>turn := t\<rparr>) = roomPlayersOk rm''" for rm'' ph w t
    by (simp_all add: roomPlayersOk_def)
  show ?thesis
    using assms(2) me oi op upd ent
    by (auto simp: fireRoom_def Let_def pl split: if_splits option.splits)
qed

lemma roomPlayersOk_fields:
  "roomPlayersOk (rm\<lparr>phase := ph\<rparr>) = roomPlayersOk rm"
  "roomPlayersOk (rm\<lparr>turn := t\<rparr>) = roomPlayersOk rm"
  "roomPlayersOk (rm\<lparr>winner := w\<rparr>) = roomPlayersOk rm"
  by (simp_all add: roomPlayersOk_def)

lemma createRoom_players_ok:
  "allPlayersOk srv \<Longrightarrow> allPlayersOk (fst (createRoom e wid srv))"
  by (auto simp: allPlayersOk_def createRoom_def Let_def newRoom_def roomPlayersOk_def)

lemma joinRoom_players_ok:
  "allPlayersOk srv \<Longrightarrow> allPlayersOk (fst (joinRoom e wid ws srv mc))"
  by (auto simp: allPlayersOk_def joinRoom_def Let_def update_players_ok newPlayer_ok
      split: option.splits if_splits)

lemma placeFleet_players_ok:
  assumes "allPlayersOk srv"
  shows "allPlayersOk (fst (placeFleet e wid ws srv payload rdy))"
proof (cases "getRoom ws srv")
  case None
  then show ?thesis using assms by (simp add: placeFleet_def)
next
  case (Some rm)
  then have ok: "roomPlayersOk rm"
    using assms getRoom_Some [OF Some] by (auto simp: allPlayersOk_def)
  have st: "roomPlayersOk (storeFleet rm k p cl rdy)"
    if "playerOf rm (ws_playerId ws) = Some p" "sanitizeFleet payload = Some cl" for k p cl
  proof -
    have "playerOk p" using ok playerOf_mem [OF that(1)] by (auto simp: roomPlayersOk_def)
    then have "shape10 (marks p)" by (simp add: playerOk_def)
    from sanitizeFleet_playerOk [OF that(2) this] show ?thesis
      unfolding storeFleet_def using ok by (intro update_players_ok)
  qed
  show ?thesis
    using assms Some st
    by (auto simp: placeFleet_def Let_def allPlayersOk_def startBattle_def roomPlayersOk_fields
        split: option.splits if_splits)
qed

lemma fire_players_ok:
  assumes "allPlayersOk srv" and "fire wid ws srv r0 c0 = Inr (srv', outs)"
  shows "allPlayersOk srv'"
proof (cases "getRoom ws srv")
  case None
  then show ?thesis using assms by (simp add: fire_def)
next
  case (Some rm)
  then have ok: "roomPlayersOk rm"
    using assms(1) getRoom_Some [OF Some] by (auto simp: allPlayersOk_def)
  show ?thesis
  proof (cases "fireRoom rm (ws_playerId ws) r0 c0")
    case (Inl x)
    then show ?thesis using assms(2) Some by (simp add: fire_def)
  next
    case (Inr res)
    show ?thesis
    proof (cases res)
      case None
      then show ?thesis using assms Some Inr by (simp add: fire_def)
    next
      case (Some rm')
      then have "roomPlayersOk rm'" using fireRoom_players_ok [OF ok] Inr by simp
      then show ?thesis
        using assms \<open>getRoom ws srv = Some rm\<close> Inr Some
        by (auto simp: fire_def Let_def allPlayersOk_def split: if_splits)
    qed
  qed
qed

lemma handle_players_ok:
  assumes "allPlayersOk srv" and "handle e wid ws srv m = Inr (srv', outs)"
  shows "allPlayersOk srv'"
proof (cases m)
  case CREATE_ROOM
  then show ?thesis using assms createRoom_players_ok [OF assms(1), of e wid] by auto
next
  case (JOIN_ROOM mc)
  then show ?thesis using assms joinRoom_players_ok [OF assms(1), of e wid ws mc] by auto
next
  case (PLACE_FLEET payload rdy)
  then show ?thesis
    using assms placeFleet_players_ok [OF assms(1), of e wid ws payload rdy] by auto
next
  case (FIRE r c)
  then show ?thesis using assms fire_players_ok [OF assms(1), of wid ws r c srv' outs] by simp
next
  case REQUEST_STATE
  then show ?thesis using assms by (auto simp: requestState_def split: option.splits)
qed (use assms in simp_all)

lemma step_players_ok:
  assumes "allPlayersOk srv" and "step e ev srv = Inr (srv', outs)"
  shows "allPlayersOk srv'"
proof (cases ev)
  case (Connection wid)
  then show ?thesis using assms
    by (auto simp: onConnection_def allPlayersOk_def split: if_splits)
next
  case (Message wid raw)
  show ?thesis
  proof (cases "map_of (clients srv) wid")
    case None
    then show ?thesis using assms Message by (simp add: onMessage_def)
  next
    case (Some ws)
    let ?ws1 = "ws\<lparr>ws_okRate := snd (ok (now e) (ws_okRate ws))\<rparr>"
    let ?srv1 = "srv\<lparr>clients := AList.update wid ?ws1 (clients srv)\<rparr>"
    have ok1: "allPlayersOk ?srv1" using assms(1) by (simp add: allPlayersOk_def)
    show ?thesis
    proof (cases "fst (ok (now e) (ws_okRate ws)) \<and> raw \<noteq> None")
      case True
      then obtain m where m: "raw = Some m" by auto
      have "handle e wid ?ws1 ?srv1 m = Inr (srv', outs)"
        using assms(2) Message Some True m by (simp add: onMessage_def Let_def)
      from handle_players_ok [OF ok1 this] show ?thesis .
    next
      case False
      then have "srv' = ?srv1"
        using assms(2) Message Some by (auto simp: onMessage_def Let_def split: option.splits)
      then show ?thesis using ok1 by simp
    qed
  qed
next
  case (Close wid)
  then show ?thesis using assms
    by (auto simp: onClose_def cleanupRooms_def allPlayersOk_def split: if_splits)
qed

text \<open>In every reachable state the grids of every player are 10 by 10 and every ship
  cell of a board belongs to a ship of the fleet stored with it.\<close>

lemma reachable_players_ok: "reachable srv \<Longrightarrow> allPlayersOk srv"
proof (induction rule: reachable.induct)
  case reach_start
  then show ?case by (simp add: allPlayersOk_def server0_def)
next
  case (reach_step srv e ev srv' outs)
  then show ?case using step_players_ok by blast
qed

text \<open>So a \<open>FIRE\<close> never throws in a reachable state: the opponent is a stored player,
  the clamped cell is inside both grids, and a ship cell has its ship.\<close>

lemma fireRoom_total:
  assumes "roomPlayersOk rm"
  shows "\<exists>res. fireRoom rm pid r0 c0 = Inr res"
proof -
  let ?r = "clamp (toInt32 r0) 0 9" and ?c = "clamp (toInt32 c0) 0 9"
  have opp: "\<exists>q. map_of (players rm) i = Some q \<and> playerOk q"
    if "otherPlayerId rm pid = Some i" for i
  proof -
    from otherPlayerId_key [OF that] obtain q where "map_of (players rm) i = Some q"
      by (metis domD domI dom_map_of_conv_image_fst)
    moreover from this have "(i, q) \<in> set (players rm)" by (rule map_of_SomeD)
    ultimately show ?thesis using assms by (force simp: roomPlayersOk_def)
  qed
  have ship: "find (\<lambda>s. ship_id s = cell (board q) ?r ?c) (ships q) \<noteq> None"
    if "playerOk q" "cell (board q) ?r ?c \<noteq> 0" for q
  proof -
    have "(?r, ?c) \<in> set coords" using clamp_inb by (simp add: set_coords)
    then have "cell (board q) ?r ?c \<in> ship_id ` set (ships q)"
      using that by (force simp: playerOk_def)
    then show ?thesis by (auto simp: find_None_iff)
  qed
  show ?thesis
  proof (cases "otherPlayerId rm pid")
    case None
    then show ?thesis by (auto simp: fireRoom_def split: option.splits)
  next
    case (Some i)
    from opp [OF Some] obtain q where q: "map_of (players rm) i = Some q" "playerOk q" by blast
    show ?thesis
      using Some q(1) ship [OF q(2)]
      by (auto simp: fireRoom_def Let_def split: option.splits)
  qed
qed

lemma fire_total:
  "reachable srv \<Longrightarrow> \<exists>res. fire wid ws srv r0 c0 = Inr res"
proof -
  assume "reachable srv"
  then have ok: "allPlayersOk srv" by (rule reachable_players_ok)
  show ?thesis
  proof (cases "getRoom ws srv")
    case None
    then show ?thesis by (simp add: fire_def)
  next
    case (Some rm)
    then have "roomPlayersOk rm" using ok getRoom_Some [OF Some] by (auto simp: allPlayersOk_def)
    from fireRoom_total [OF this, of "ws_playerId ws" r0 c0] obtain res
      where "fireRoom rm (ws_playerId ws) r0 c0 = Inr res" by blast
    then show ?thesis using Some by (cases res) (simp_all add: fire_def Let_def)
  qed
qed

text \<open>A message over the limit is dropped at once: it reaches no case of the switch,
  nothing is sent, and only the closure's counter changes.\<close>

lemma onMessage_dropped:
  assumes "map_of (clients srv) wid = Some ws" and "\<not> fst (ok (now e) (ws_okRate ws))"
  shows "onMessage e wid raw srv =
           Inr (srv\<lparr>clients := AList.update wid
                        (ws\<lparr>ws_okRate := snd (ok (now e) (ws_okRate ws))\<rparr>) (clients srv)\<rparr>, [])"
  using assms by (simp add: onMessage_def Let_def)

text \<open>The board of the opponent in a \<open>ROOM_STATE\<close> is the masked one.\<close>

lemma roomStateFor_opp_board:
  assumes "truthy (ws_playerId ws)" and "playerOf rm (ws_playerId ws) = Some me"
    and "otherPlayerId rm (ws_playerId ws) = Some oppId"
    and "map_of (players rm) oppId = Some opp"
  shows "map_option pv_board (rs_opp (roomStateFor ws rm)) =
           Some (maskOpponentBoard (Some (board opp)) (Some (marks me)))"
  using assms by (simp add: roomStateFor_def Let_def)

subsection \<open>The handlers at states of the game\<close>

lemma connAfter_eq:
  "connAfter evs wid = Some (ws, srv) \<Longrightarrow>
   runEvents evs server0 = Inr srv \<and> srv = stateAfter evs \<and> ws = socketAfter evs wid"
  by (auto simp: connAfter_def stateAfter_def socketAfter_def split: sum.splits option.splits)

lemma stateAfter_reachable: "runEvents evs server0 = Inr srv \<Longrightarrow> reachable (stateAfter evs)"
  using runEvents_reachable [OF reachable.reach_start, of evs srv]
  by (simp add: stateAfter_def)

lemma fullGame_room:
  "map_option (\<lambda>rm. (phase rm, turn rm, winner rm)) (roomAfter fullGame ''100000'')
     = Some (Gameover, Some ''A'', Some ''A'')"
  by code_simp

lemma openingMoves_conn:
  "(case connAfter openingMoves 1 of None \<Rightarrow> False
    | Some (ws, srv) \<Rightarrow>
        map_option (\<lambda>rm. (phase rm, turn rm, winner rm)) (rooms srv ''100000'')
          = Some (Battle, Some ''A'', None))"
  by code_simp

text \<open>
  C1, as stated, fails in the phase gameover: the winning \<open>FIRE\<close> sets \<open>phase\<close> and
  \<open>winner\<close> and leaves \<open>turn\<close> at the player who fired; no handler ever writes
  \<open>null\<close> to \<open>turn\<close>. After the game \<open>fullGame\<close> the room 100000 is in the phase
  gameover with \<open>turn\<close> set.
\<close>

theorem C1_turn_after_gameover_counterexample:
  "map_option claimedTurnWinner (roomAfter fullGame ''100000'') = Some False \<and>
   map_option phase (roomAfter fullGame ''100000'') = Some Gameover \<and>
   map_option turn (roomAfter fullGame ''100000'') = Some (Some ''A'')"
  using fullGame_room
  by (cases "roomAfter fullGame ''100000''") (auto simp: claimedTurnWinner_def)

text \<open>
  C1, amended: in every reachable state of the server (any sequence of connections,
  messages and closes from the start), every room has \<open>turn\<close> set iff its phase is
  battle or gameover, and \<open>winner\<close> set iff its phase is gameover; in the phase
  gameover \<open>turn\<close> is the winner.
\<close>

theorem C1_turn_winner_invariant:
  assumes "reachable srv" and "rooms srv code = Some rm"
  shows "(turn rm \<noteq> None) = (phase rm \<noteq> Placing) \<and>
         (winner rm \<noteq> None) = (phase rm = Gameover) \<and>
         (phase rm = Gameover \<longrightarrow> turn rm = winner rm)"
proof -
  have "turnWinnerOk rm" using reachable_ok [OF assms(1)] assms(2) by (simp add: allRoomsOk_def)
  then show ?thesis by (cases "phase rm") (auto simp: turnWinnerOk_def)
qed

theorem C1_turn_winner_invariant_witness:
  "reachable (stateAfter openingMoves) \<and>
   (\<exists>rm. rooms (stateAfter openingMoves) ''100000'' = Some rm \<and> phase rm = Battle \<and>
      (turn rm \<noteq> None) = (phase rm \<noteq> Placing) \<and>
      (winner rm \<noteq> None) = (phase rm = Gameover))"
proof -
  from openingMoves_conn obtain ws srv rm where
    h: "connAfter openingMoves 1 = Some (ws, srv)" "rooms srv ''100000'' = Some rm"
       "phase rm = Battle"
    by (auto split: option.splits)
  from connAfter_eq [OF h(1)] have e: "runEvents openingMoves server0 = Inr srv"
    "srv = stateAfter openingMoves" by simp_all
  have r: "reachable (stateAfter openingMoves)" using e(1) by (rule stateAfter_reachable)
  have m: "rooms (stateAfter openingMoves) ''100000'' = Some rm" using h(2) e(2) by simp
  from C1_turn_winner_invariant [OF r m] r m h(3) show ?thesis by blast
qed

lemma fireRoom_win:
  assumes "winningShot rm pid r0 c0"
  shows "\<exists>rm'. fireRoom rm pid r0 c0 = Inr (Some rm') \<and> phase rm' = Gameover \<and>
           winner rm' = pid \<and> turn rm' = pid \<and> turn rm' = turn rm"
  using assms
  by (auto simp: winningShot_def fireRoom_def Let_def split: option.splits)

text \<open>
  C5, as stated, fails in its last part: the winning \<open>FIRE\<close> does not clear \<open>turn\<close>.
  Before the last shot of \<open>fullGame\<close> the room is in battle with the turn at \<open>A\<close>;
  the shot of \<open>A\<close> at (8, 1) sinks the last ship, and afterwards the phase is gameover,
  the winner is \<open>A\<close>, and \<open>turn\<close> is still \<open>A\<close>.
\<close>

theorem C5_turn_not_cleared_counterexample:
  "map_option phase (roomAfter (gameBeforeLastShot @ [lastShot]) ''100000'') = Some Gameover \<and>
   map_option winner (roomAfter (gameBeforeLastShot @ [lastShot]) ''100000'') = Some (Some ''A'') \<and>
   map_option turn (roomAfter (gameBeforeLastShot @ [lastShot]) ''100000'') \<noteq> Some None"
  using fullGame_room unfolding fullGame_def
  by (cases "roomAfter (gameBeforeLastShot @ [lastShot]) ''100000''") auto

text \<open>
  C5, amended: when the turn holder of a room in battle fires a hit after which every
  ship of the opponent has as many hits as cells, the \<open>FIRE\<close> transition sets the phase
  to gameover and the winner to the firing player, stores the room under the socket's
  code, and leaves \<open>turn\<close> as it was, at the firing player.
\<close>

theorem C5_winning_shot:
  assumes "firesWinningShot ws srv r0 c0"
  shows "\<exists>srv' outs rm'. handle e wid ws srv (FIRE r0 c0) = Inr (srv', outs) \<and>
           rooms srv' (propKey (ws_room ws)) = Some rm' \<and>
           phase rm' = Gameover \<and> winner rm' = ws_playerId ws \<and>
           turn rm' = ws_playerId ws \<and> Some (turn rm') = map_option turn (getRoom ws srv)"
proof -
  from assms obtain rm where rm: "getRoom ws srv = Some rm"
      "winningShot rm (ws_playerId ws) r0 c0"
    by (auto simp: firesWinningShot_def split: option.splits)
  from fireRoom_win [OF rm(2)] obtain rm' where
    f: "fireRoom rm (ws_playerId ws) r0 c0 = Inr (Some rm')" "phase rm' = Gameover"
       "winner rm' = ws_playerId ws" "turn rm' = ws_playerId ws" "turn rm' = turn rm"
    by blast
  show ?thesis using rm(1) f by (simp add: fire_def Let_def)
qed

theorem C5_winning_shot_witness:
  "firesWinningShot (socketAfter gameBeforeLastShot 1) (stateAfter gameBeforeLastShot) 8 1 \<and>
   (\<exists>srv' outs rm'.
      handle (fst lastShot) 1 (socketAfter gameBeforeLastShot 1) (stateAfter gameBeforeLastShot)
        (FIRE 8 1) = Inr (srv', outs) \<and>
      rooms srv' ''100000'' = Some rm' \<and>
      phase rm' = Gameover \<and> winner rm' = Some ''A'' \<and> turn rm' = Some ''A'')"
proof -
  have "(case connAfter gameBeforeLastShot 1 of None \<Rightarrow> False
         | Some (ws, srv) \<Rightarrow> firesWinningShot ws srv 8 1 \<and>
             ws_room ws = Some ''100000'' \<and> ws_playerId ws = Some ''A'')"
    by code_simp
  then obtain ws srv where h: "connAfter gameBeforeLastShot 1 = Some (ws, srv)"
      "firesWinningShot ws srv 8 1" "ws_room ws = Some ''100000''" "ws_playerId ws = Some ''A''"
    by (auto split: option.splits)
  from connAfter_eq [OF h(1)] have e: "srv = stateAfter gameBeforeLastShot"
    "ws = socketAfter gameBeforeLastShot 1" by simp_all
  from C5_winning_shot [OF h(2), of "fst lastShot" 1] obtain srv' outs rm' where
    k: "handle (fst lastShot) 1 ws srv (FIRE 8 1) = Inr (srv', outs)"
       "rooms srv' (propKey (ws_room ws)) = Some rm'" "phase rm' = Gameover"
       "winner rm' = ws_playerId ws" "turn rm' = ws_playerId ws"
    by blast
  have k2: "rooms srv' ''100000'' = Some rm'" using k(2) h(3) by (simp add: propKey_def)
  have k4: "winner rm' = Some ''A''" "turn rm' = Some ''A''" using k(4,5) h(4) by simp_all
  have "\<exists>srv' outs rm'.
      handle (fst lastShot) 1 ws srv (FIRE 8 1) = Inr (srv', outs) \<and>
      rooms srv' ''100000'' = Some rm' \<and>
      phase rm' = Gameover \<and> winner rm' = Some ''A'' \<and> turn rm' = Some ''A''"
    using k(1) k2 k(3) k4 by (intro exI conjI) assumption+
  then show ?thesis using h(2) unfolding e by (intro conjI) assumption+
qed

text \<open>
  C6: when a socket bound to a player of a room in the placing phase sends a
  \<open>PLACE_FLEET\<close> whose payload the sanitizer rejects, the server sends \<open>BAD_FLEET\<close> to
  that socket and nothing else, and the state of the server is what it was: the
  player's stored board, ships and ready flag with it.
\<close>

theorem C6_bad_fleet_atomic:
  assumes "placing ws srv" and "sanitizeFleet payload = None"
  shows "handle e wid ws srv (PLACE_FLEET payload rdy) = Inr (srv, [(wid, ERROR BAD_FLEET)])"
  using assms
  by (auto simp: placing_def placeFleet_def split: option.splits)

theorem C6_bad_fleet_atomic_witness:
  "placing (socketAfter lobby 1) (stateAfter lobby) \<and>
   sanitizeFleet (Some boardNine) = None \<and>
   handle (drawn 8000 []) 1 (socketAfter lobby 1) (stateAfter lobby)
     (PLACE_FLEET (Some boardNine) True)
   = Inr (stateAfter lobby, [(1, ERROR BAD_FLEET)])"
proof -
  have "(case connAfter lobby 1 of None \<Rightarrow> False | Some (ws, srv) \<Rightarrow> placing ws srv)"
    by code_simp
  then obtain ws srv where h: "connAfter lobby 1 = Some (ws, srv)" "placing ws srv"
    by (auto split: option.splits)
  from connAfter_eq [OF h(1)] have e: "srv = stateAfter lobby" "ws = socketAfter lobby 1"
    by simp_all
  have r: "sanitizeFleet (Some boardNine) = None" by code_simp
  from C6_bad_fleet_atomic [OF h(2) r, of "drawn 8000 []" 1 True] h(2) r show ?thesis
    unfolding e by simp
qed

text \<open>
  C7: when the turn holder of a room in battle fires at a (clamped) cell that its marks
  grid already holds as 2 or 3, the \<open>FIRE\<close> case changes nothing and sends nothing: the
  state of the server, and so the firing player's marks, the room's turn, phase and
  winner, both boards and every hit list, is what it was.
\<close>

theorem C7_fire_at_marked_noop:
  assumes "firesAtMarked ws srv r0 c0"
  shows "handle e wid ws srv (FIRE r0 c0) = Inr (srv, [])"
  using assms
  by (auto simp: firesAtMarked_def fire_def fireRoom_def Let_def split: option.splits)

theorem C7_fire_at_marked_noop_witness:
  "firesAtMarked (socketAfter shortGame 1) (stateAfter shortGame) (- 5) 0 \<and>
   handle (drawn 24000 []) 1 (socketAfter shortGame 1) (stateAfter shortGame) (FIRE (- 5) 0)
   = Inr (stateAfter shortGame, [])"
proof -
  have "(case connAfter shortGame 1 of None \<Rightarrow> False
         | Some (ws, srv) \<Rightarrow> firesAtMarked ws srv (- 5) 0)"
    by code_simp
  then obtain ws srv where h: "connAfter shortGame 1 = Some (ws, srv)"
      "firesAtMarked ws srv (- 5) 0"
    by (auto split: option.splits)
  from connAfter_eq [OF h(1)] have e: "srv = stateAfter shortGame" "ws = socketAfter shortGame 1"
    by simp_all
  from C7_fire_at_marked_noop [OF h(2), of "drawn 24000 []" 1] h(2) show ?thesis
    unfolding e by simp
qed

lemma update_fresh: "k \<notin> fst ` set al \<Longrightarrow> AList.update k v al = al @ [(k, v)]"
  by (induction al) auto

text \<open>
  C10: \<open>JOIN_ROOM\<close> looks at the room only. For a room with fewer than two players and
  a fresh UUID (and with players as every room stores them), a join with the room's code
  from any socket, bound or not, succeeds: the room gets a new player after those it
  had, the socket is bound to the room and the new player, \<open>JOINED\<close> is sent to it, and
  no other room changes, so a player the socket was bound to before stays where it was.
\<close>

theorem C10_join_ignores_binding:
  assumes "joinable srv code (randomUUID e)"
  shows "\<exists>srv' outs rm rm'.
           handle e wid ws srv (JOIN_ROOM (Some code)) = Inr (srv', outs) \<and>
           rooms srv (trim code) = Some rm \<and> rooms srv' (trim code) = Some rm' \<and>
           rm' = rm\<lparr>players := players rm @ [(randomUUID e, newPlayer (randomUUID e))]\<rparr> \<and>
           map_of (clients srv') wid =
             Some (ws\<lparr>ws_room := Some (trim code), ws_playerId := Some (randomUUID e)\<rparr>) \<and>
           (wid, JOINED (trim code) (randomUUID e)) \<in> set outs \<and>
           (\<forall>other. other \<noteq> trim code \<longrightarrow> rooms srv' other = rooms srv other)"
proof -
  from assms obtain rm where rm: "rooms srv (trim code) = Some rm" "length (players rm) < 2"
      "randomUUID e \<notin> fst ` set (players rm)"
    by (auto simp: joinable_def split: option.splits)
  have c: "trim (if truthy (Some code) then propKey (Some code) else []) = trim code"
    by (simp add: truthy_def propKey_def)
  show ?thesis
    using rm
    by (simp add: joinRoom_def Let_def c update_fresh update_conv del: AList.update.simps)
qed

theorem C10_join_ignores_binding_witness:
  "ws_room (socketAfter lobby 1) = Some ''100000'' \<and>
   ws_playerId (socketAfter lobby 1) = Some ''A'' \<and>
   joinable (stateAfter lobby) ''100000'' (randomUUID (drawn 8000 ''B'')) \<and>
   (\<exists>srv' outs rm'.
      handle (drawn 8000 ''B'') 1 (socketAfter lobby 1) (stateAfter lobby)
        (JOIN_ROOM (Some ''100000'')) = Inr (srv', outs) \<and>
      rooms srv' ''100000'' = Some rm' \<and> map fst (players rm') = [''A'', ''B''] \<and>
      map_option ws_playerId (map_of (clients srv') 1) = Some (Some ''B''))"
proof -
  have "(case connAfter lobby 1 of None \<Rightarrow> False
         | Some (ws, srv) \<Rightarrow>
             ws_room ws = Some ''100000'' \<and> ws_playerId ws = Some ''A'' \<and>
             joinable srv ''100000'' ''B'' \<and>
             map_option (\<lambda>rm. map fst (players rm)) (rooms srv ''100000'') = Some [''A''])"
    by code_simp
  then obtain ws srv where h: "connAfter lobby 1 = Some (ws, srv)"
      "ws_room ws = Some ''100000''" "ws_playerId ws = Some ''A''"
      "joinable srv ''100000'' ''B''"
      "map_option (\<lambda>rm. map fst (players rm)) (rooms srv ''100000'') = Some [''A'']"
    by (auto split: option.splits)
  from connAfter_eq [OF h(1)] have e: "srv = stateAfter lobby" "ws = socketAfter lobby 1"
    by simp_all
  have t: "trim ''100000'' = ''100000''" by code_simp
  have u: "randomUUID (drawn 8000 ''B'') = ''B''" by (simp add: drawn_def)
  have j: "joinable srv ''100000'' (randomUUID (drawn 8000 ''B''))" using h(4) u by simp
  from C10_join_ignores_binding [OF j, of 1 ws] obtain srv' outs rm rm' where
    k: "handle (drawn 8000 ''B'') 1 ws srv (JOIN_ROOM (Some ''100000'')) = Inr (srv', outs)"
       "rooms srv ''100000'' = Some rm" "rooms srv' ''100000'' = Some rm'"
       "rm' = rm\<lparr>players := players rm @ [(''B'', newPlayer ''B'')]\<rparr>"
       "map_of (clients srv') 1 = Some (ws\<lparr>ws_room := Some ''100000'', ws_playerId := Some ''B''\<rparr>)"
    unfolding t u by blast
  have p: "map fst (players rm') = [''A'', ''B'']" using h(5) k(2,4) by simp
  have q: "map_option ws_playerId (map_of (clients srv') 1) = Some (Some ''B'')"
    using k(5) by simp
  have "\<exists>srv' outs rm'.
      handle (drawn 8000 ''B'') 1 ws srv (JOIN_ROOM (Some ''100000'')) = Inr (srv', outs) \<and>
      rooms srv' ''100000'' = Some rm' \<and> map fst (players rm') = [''A'', ''B''] \<and>
      map_option ws_playerId (map_of (clients srv') 1) = Some (Some ''B'')"
    using k(1) k(3) p q by (intro exI conjI) assumption+
  then show ?thesis using h(2,3) j unfolding e by (intro conjI) assumption+
qed

end
